theory Spec2Isabelle
  imports Complex_Main "HOL-Library.Monad_Syntax"
begin

section \<open>Data model (fir.h)\<close>

text \<open>
  Single-precision samples and coefficients are idealised as real numbers, so every product
  and sum below is exact: the rounding of the single-precision operations, and with it the
  effect of the order in which terms are added, is outside this model. Arrays are lists;
  a pointer into an array is the array together with an integer offset, and every access is
  bounds-checked: the result \<open>None\<close> stands for an access outside the array (undefined
  behaviour in C). A pointer that may be \<open>NULL\<close> is an \<open>option\<close>.

  Coefficient arrays live in a store, keyed by address, so that copying and freeing them is
  visible; \<open>fir_filter.coeffs\<close> is such an address.
\<close>

type_synonym addr = nat

record fir_filter =
  rate :: int
  coeffs :: addr
  order :: int

record delay_line =
  buffer :: "real list"
  size_dl :: nat
  index :: nat

record heap =
  arrays :: "addr \<rightharpoonup> real list"
  brk :: addr
  alloc_ok :: "bool list"

definition rd :: "real list \<Rightarrow> int \<Rightarrow> real option" where
  "rd xs k = (if 0 \<le> k \<and> k < int (length xs) then Some (xs ! nat k) else None)"

definition wr :: "real list \<Rightarrow> int \<Rightarrow> real \<Rightarrow> real list option" where
  "wr xs k v = (if 0 \<le> k \<and> k < int (length xs) then Some (xs[nat k := v]) else None)"

section \<open>Scalar convolution (fir.c)\<close>

text \<open>\<open>scalar_sum coeff buf k n\<close> is \<open>sum\<close> after \<open>n\<close> rounds of the inner loop, where
  \<open>k\<close> is the offset of \<open>samples + i\<close> in the buffer.\<close>

primrec scalar_sum :: "real list \<Rightarrow> real list \<Rightarrow> int \<Rightarrow> nat \<Rightarrow> real option" where
  "scalar_sum coeff buf k 0 = Some 0"
| "scalar_sum coeff buf k (Suc n) =
     do { s \<leftarrow> scalar_sum coeff buf k n;
          c \<leftarrow> rd coeff (int n);
          x \<leftarrow> rd buf (k + int n);
          Some (s + c * x) }"

text \<open>\<open>scalar_rows \<dots> n\<close> is the output array after \<open>n\<close> rounds of the outer loop.\<close>

primrec scalar_rows ::
  "int \<Rightarrow> real list \<Rightarrow> real list \<Rightarrow> int \<Rightarrow> real list \<Rightarrow> nat \<Rightarrow> real list option" where
  "scalar_rows len coeff buf base out 0 = Some out"
| "scalar_rows len coeff buf base out (Suc n) =
     do { out' \<leftarrow> scalar_rows len coeff buf base out n;
          s \<leftarrow> scalar_sum coeff buf (base + int n) (nat len);
          wr out' (int n) s }"

definition fir_filter_apply_scalar ::
  "int \<Rightarrow> real list \<Rightarrow> int \<Rightarrow> real list \<Rightarrow> int \<Rightarrow> real list \<Rightarrow> real list option" where
  "fir_filter_apply_scalar len coeff count buf base out =
     scalar_rows len coeff buf base out (nat count)"

section \<open>Vectorised convolution (fir.c)\<close>

text \<open>A 512-bit register is a list of 16 lanes. \<open>loadu xs k\<close> reads the 16 elements from
  offset \<open>k\<close>; \<open>fmadd\<close> multiplies and adds lane by lane; \<open>reduce_add\<close> adds the lanes up.
  Both are exact here: the single rounding of the fused multiply-add and the order in which
  \<open>_mm512_reduce_add_ps\<close> adds the lanes do not show over the reals.\<close>

definition SIMD_WIDTH_AVX512 :: nat where "SIMD_WIDTH_AVX512 = 16"
definition OUTPUT_UNROLL_FACTOR :: nat where "OUTPUT_UNROLL_FACTOR = 4"

definition setzero :: "real list" where
  "setzero = replicate SIMD_WIDTH_AVX512 0"

definition loadu :: "real list \<Rightarrow> int \<Rightarrow> real list option" where
  "loadu xs k = those (map (\<lambda>l. rd xs (k + int l)) [0..<SIMD_WIDTH_AVX512])"

definition fmadd :: "real list \<Rightarrow> real list \<Rightarrow> real list \<Rightarrow> real list" where
  "fmadd a b c = map (\<lambda>((x, y), z). x * y + z) (zip (zip a b) c)"

definition reduce_add :: "real list \<Rightarrow> real" where
  "reduce_add v = sum_list v"

text \<open>C division truncates towards zero.\<close>

definition c_div :: "int \<Rightarrow> int \<Rightarrow> int" where
  "c_div a b = sgn a * sgn b * (\<bar>a\<bar> div \<bar>b\<bar>)"

text \<open>The four accumulators of a batch after \<open>n\<close> rounds of the lane loop (\<open>j = 16 * n\<close>);
  \<open>k\<close> is the offset of \<open>samples + i\<close>.\<close>

primrec avx_acc4 ::
  "real list \<Rightarrow> real list \<Rightarrow> int \<Rightarrow> nat \<Rightarrow> (real list \<times> real list \<times> real list \<times> real list) option" where
  "avx_acc4 coeff buf k 0 = Some (setzero, setzero, setzero, setzero)"
| "avx_acc4 coeff buf k (Suc n) =
     do { (v0, v1, v2, v3) \<leftarrow> avx_acc4 coeff buf k n;
          coeff_vec \<leftarrow> loadu coeff (int (SIMD_WIDTH_AVX512 * n));
          samples_vec0 \<leftarrow> loadu buf (k + 0 + int (SIMD_WIDTH_AVX512 * n));
          samples_vec1 \<leftarrow> loadu buf (k + 1 + int (SIMD_WIDTH_AVX512 * n));
          samples_vec2 \<leftarrow> loadu buf (k + 2 + int (SIMD_WIDTH_AVX512 * n));
          samples_vec3 \<leftarrow> loadu buf (k + 3 + int (SIMD_WIDTH_AVX512 * n));
          Some (fmadd coeff_vec samples_vec0 v0, fmadd coeff_vec samples_vec1 v1,
                fmadd coeff_vec samples_vec2 v2, fmadd coeff_vec samples_vec3 v3) }"

text \<open>The four sums of a batch after \<open>n\<close> rounds of the scalar tail (\<open>j = vlen + n\<close>).\<close>

primrec avx_tail4 ::
  "real list \<Rightarrow> real list \<Rightarrow> int \<Rightarrow> int \<Rightarrow> (real \<times> real \<times> real \<times> real) \<Rightarrow> nat
     \<Rightarrow> (real \<times> real \<times> real \<times> real) option" where
  "avx_tail4 coeff buf k vlen acc 0 = Some acc"
| "avx_tail4 coeff buf k vlen acc (Suc n) =
     do { (sum0, sum1, sum2, sum3) \<leftarrow> avx_tail4 coeff buf k vlen acc n;
          c \<leftarrow> rd coeff (vlen + int n);
          x0 \<leftarrow> rd buf (k + 0 + (vlen + int n));
          x1 \<leftarrow> rd buf (k + 1 + (vlen + int n));
          x2 \<leftarrow> rd buf (k + 2 + (vlen + int n));
          x3 \<leftarrow> rd buf (k + 3 + (vlen + int n));
          Some (sum0 + c * x0, sum1 + c * x1, sum2 + c * x2, sum3 + c * x3) }"

text \<open>The output array after \<open>n\<close> batches of four outputs (\<open>i = 4 * n\<close>).\<close>

primrec avx_batches ::
  "int \<Rightarrow> int \<Rightarrow> real list \<Rightarrow> real list \<Rightarrow> int \<Rightarrow> real list \<Rightarrow> nat \<Rightarrow> real list option" where
  "avx_batches len vlen coeff buf base out 0 = Some out"
| "avx_batches len vlen coeff buf base out (Suc n) =
     do { out' \<leftarrow> avx_batches len vlen coeff buf base out n;
          (v0, v1, v2, v3) \<leftarrow>
             avx_acc4 coeff buf (base + int (OUTPUT_UNROLL_FACTOR * n)) (nat vlen div SIMD_WIDTH_AVX512);
          (sum0, sum1, sum2, sum3) \<leftarrow>
             avx_tail4 coeff buf (base + int (OUTPUT_UNROLL_FACTOR * n)) vlen
               (reduce_add v0, reduce_add v1, reduce_add v2, reduce_add v3) (nat (len - vlen));
          out0 \<leftarrow> wr out' (int (OUTPUT_UNROLL_FACTOR * n) + 0) sum0;
          out1 \<leftarrow> wr out0 (int (OUTPUT_UNROLL_FACTOR * n) + 1) sum1;
          out2 \<leftarrow> wr out1 (int (OUTPUT_UNROLL_FACTOR * n) + 2) sum2;
          wr out2 (int (OUTPUT_UNROLL_FACTOR * n) + 3) sum3 }"

text \<open>The remainder loop: one accumulator, then its scalar tail.\<close>

primrec avx_acc1 :: "real list \<Rightarrow> real list \<Rightarrow> int \<Rightarrow> nat \<Rightarrow> real list option" where
  "avx_acc1 coeff buf k 0 = Some setzero"
| "avx_acc1 coeff buf k (Suc n) =
     do { v \<leftarrow> avx_acc1 coeff buf k n;
          coeff_vec \<leftarrow> loadu coeff (int (SIMD_WIDTH_AVX512 * n));
          samples_vec \<leftarrow> loadu buf (k + int (SIMD_WIDTH_AVX512 * n));
          Some (fmadd coeff_vec samples_vec v) }"

primrec avx_tail1 :: "real list \<Rightarrow> real list \<Rightarrow> int \<Rightarrow> int \<Rightarrow> real \<Rightarrow> nat \<Rightarrow> real option" where
  "avx_tail1 coeff buf k vlen s 0 = Some s"
| "avx_tail1 coeff buf k vlen s (Suc n) =
     do { sum \<leftarrow> avx_tail1 coeff buf k vlen s n;
          c \<leftarrow> rd coeff (vlen + int n);
          x \<leftarrow> rd buf (k + (vlen + int n));
          Some (sum + c * x) }"

primrec avx_rest ::
  "int \<Rightarrow> int \<Rightarrow> int \<Rightarrow> real list \<Rightarrow> real list \<Rightarrow> int \<Rightarrow> real list \<Rightarrow> nat \<Rightarrow> real list option" where
  "avx_rest len vlen vcount coeff buf base out 0 = Some out"
| "avx_rest len vlen vcount coeff buf base out (Suc n) =
     do { out' \<leftarrow> avx_rest len vlen vcount coeff buf base out n;
          v \<leftarrow> avx_acc1 coeff buf (base + (vcount + int n)) (nat vlen div SIMD_WIDTH_AVX512);
          s \<leftarrow> avx_tail1 coeff buf (base + (vcount + int n)) vlen (reduce_add v) (nat (len - vlen));
          wr out' (vcount + int n) s }"

definition fir_filter_apply_avx512 ::
  "int \<Rightarrow> real list \<Rightarrow> int \<Rightarrow> real list \<Rightarrow> int \<Rightarrow> real list \<Rightarrow> real list option" where
  "fir_filter_apply_avx512 len coeff count buf base out =
     (let vectorized_len = c_div len (int SIMD_WIDTH_AVX512) * int SIMD_WIDTH_AVX512;
          vectorized_count = c_div count (int OUTPUT_UNROLL_FACTOR) * int OUTPUT_UNROLL_FACTOR
      in do { out' \<leftarrow> avx_batches len vectorized_len coeff buf base out
                         (nat vectorized_count div OUTPUT_UNROLL_FACTOR);
              avx_rest len vectorized_len vectorized_count coeff buf base out'
                (nat (count - vectorized_count)) })"

section \<open>Applying a filter to a delay line (fir.c)\<close>

text \<open>The flag \<open>avx512f\<close> is the build-time choice between the two paths. The result is the
  output pointer with the array it points to after the call.\<close>

definition fir_filter_apply ::
  "bool \<Rightarrow> heap \<Rightarrow> fir_filter option \<Rightarrow> delay_line option \<Rightarrow> int \<Rightarrow> real list option
     \<Rightarrow> real list option option" where
  "fir_filter_apply avx512f h flt dl count output =
     (case (flt, dl, output) of
        (Some f, Some d, Some out) \<Rightarrow>
          if count \<le> 0 then Some output
          else (case arrays h (coeffs f) of
                  None \<Rightarrow> None
                | Some cs \<Rightarrow>
                    map_option Some
                      ((if avx512f then fir_filter_apply_avx512 else fir_filter_apply_scalar)
                         (order f) cs count (buffer d) (int (index d) - order f - count) out))
      | _ \<Rightarrow> Some output)"

section \<open>Appending to a delay line (fir.c)\<close>

text \<open>The state \<open>(buffer, buffer_write, buffer_mirror)\<close> after \<open>n\<close> rounds of the loop; the two
  pointers are offsets from the start of the buffer, \<open>e\<close> is the offset of \<open>buffer_end\<close>.\<close>

primrec append_loop ::
  "real list \<Rightarrow> int \<Rightarrow> (real list \<times> int \<times> int) \<Rightarrow> nat \<Rightarrow> (real list \<times> int \<times> int) option" where
  "append_loop samples e st 0 = Some st"
| "append_loop samples e st (Suc n) =
     do { (b, w, m) \<leftarrow> append_loop samples e st n;
          s \<leftarrow> rd samples (int n);
          b1 \<leftarrow> wr b w s;
          b2 \<leftarrow> wr b1 m s;
          (if w + 1 = e then Some (b2, m + 1, 0) else Some (b2, w + 1, m + 1)) }"

definition delay_line_append_samples ::
  "fir_filter option \<Rightarrow> delay_line option \<Rightarrow> real list option \<Rightarrow> int \<Rightarrow> delay_line option option" where
  "delay_line_append_samples flt dl samples count =
     (case (flt, dl, samples) of
        (Some f, Some d, Some xs) \<Rightarrow>
          if count \<le> 0 then Some dl
          else do { (b, w, m) \<leftarrow>
                      append_loop xs (int (size_dl d))
                        (buffer d, int (index d), int (index d) - order f * 2) (nat count);
                    Some (Some (d\<lparr>buffer := b, index := nat w\<rparr>)) }
      | _ \<Rightarrow> Some dl)"

section \<open>Allocation, cloning and freeing (fir.c)\<close>

text \<open>\<open>alloc_ok\<close> lists the outcomes of the coming \<open>malloc\<close> calls (success once the list is
  used up); a successful allocation of an array takes the fresh address \<open>brk\<close>.\<close>

definition malloc :: "heap \<Rightarrow> bool \<times> heap" where
  "malloc h = (case alloc_ok h of [] \<Rightarrow> (True, h) | b # bs \<Rightarrow> (b, h\<lparr>alloc_ok := bs\<rparr>))"

definition free :: "heap \<Rightarrow> addr \<Rightarrow> heap" where
  "free h a = h\<lparr>arrays := (arrays h)(a := None)\<rparr>"

definition fir_filter_free :: "heap \<Rightarrow> fir_filter option \<Rightarrow> heap" where
  "fir_filter_free h flt = (case flt of None \<Rightarrow> h | Some f \<Rightarrow> free h (coeffs f))"

text \<open>The result is the returned pointer and the heap; \<open>None\<close> is a \<open>memcpy\<close> that reads past the
  end of the source array. A negative \<open>order\<close> makes the size a huge unsigned number, and that
  allocation fails.\<close>

definition fir_filter_clone :: "heap \<Rightarrow> fir_filter option \<Rightarrow> (fir_filter option \<times> heap) option" where
  "fir_filter_clone h flt =
     (case flt of
        None \<Rightarrow> Some (None, h)
      | Some f \<Rightarrow>
          (case malloc h of
             (False, h1) \<Rightarrow> Some (None, h1)
           | (True, h1) \<Rightarrow>
               (case malloc h1 of
                  (False, h2) \<Rightarrow> Some (None, h2)
                | (True, h2) \<Rightarrow>
                    if order f < 0 then Some (None, h2)
                    else (case arrays h2 (coeffs f) of
                            None \<Rightarrow> None
                          | Some cs \<Rightarrow>
                              if int (length cs) < order f then None
                              else Some (Some \<lparr>rate = rate f, coeffs = brk h2, order = order f\<rparr>,
                                         h2\<lparr>arrays := (arrays h2)(brk h2 \<mapsto> take (nat (order f)) cs),
                                            brk := Suc (brk h2)\<rparr>)))))"

definition delay_line_init :: "heap \<Rightarrow> nat \<Rightarrow> delay_line option \<times> heap" where
  "delay_line_init h sz =
     (if sz = 0 then (None, h)
      else (case malloc h of
              (False, h1) \<Rightarrow> (None, h1)
            | (True, h1) \<Rightarrow>
                (case malloc h1 of
                   (False, h2) \<Rightarrow> (None, h2)
                 | (True, h2) \<Rightarrow>
                     (Some \<lparr>buffer = replicate sz 0, size_dl = sz, index = sz - 1\<rparr>, h2))))"

section \<open>The filter table and the channels (main.c)\<close>

definition MAX_FILTER_ORDER :: int where "MAX_FILTER_ORDER = 16383"
definition NUM_CHANNELS :: nat where "NUM_CHANNELS = 2"

text \<open>The six coefficient arrays are external static arrays. They sit at the addresses
  \<open>0\<close> to \<open>5\<close>; their contents are whatever the heap holds there.\<close>

definition FIR_COEFF_44100 :: addr where "FIR_COEFF_44100 = 0"
definition FIR_COEFF_88200 :: addr where "FIR_COEFF_88200 = 1"
definition FIR_COEFF_176400 :: addr where "FIR_COEFF_176400 = 2"
definition FIR_COEFF_48000 :: addr where "FIR_COEFF_48000 = 3"
definition FIR_COEFF_96000 :: addr where "FIR_COEFF_96000 = 4"
definition FIR_COEFF_192000 :: addr where "FIR_COEFF_192000 = 5"

definition FIR_FILTERS :: "fir_filter list" where
  "FIR_FILTERS =
     [\<lparr>rate = 44100, coeffs = FIR_COEFF_44100, order = 4095\<rparr>,
      \<lparr>rate = 88200, coeffs = FIR_COEFF_88200, order = 8191\<rparr>,
      \<lparr>rate = 176400, coeffs = FIR_COEFF_176400, order = 16383\<rparr>,
      \<lparr>rate = 48000, coeffs = FIR_COEFF_48000, order = 4095\<rparr>,
      \<lparr>rate = 96000, coeffs = FIR_COEFF_96000, order = 8191\<rparr>,
      \<lparr>rate = 192000, coeffs = FIR_COEFF_192000, order = 16383\<rparr>]"

text \<open>The PipeWire ports of a channel are opaque handles and are left out.\<close>

record channel =
  delay_line :: "delay_line option"
  current :: "fir_filter option"

record data =
  channels :: "channel list"
  current_rate :: int

definition init_channel :: "heap \<Rightarrow> channel \<Rightarrow> int \<Rightarrow> (int \<times> channel \<times> heap) option" where
  "init_channel h ch delay_size =
     (case delay_line_init h (nat delay_size) of
        (None, h1) \<Rightarrow> Some (- 1, ch\<lparr>delay_line := None\<rparr>, h1)
      | (Some d, h1) \<Rightarrow>
          (case fir_filter_clone h1 (Some (FIR_FILTERS ! 0)) of
             None \<Rightarrow> None
           | Some (None, h2) \<Rightarrow> Some (- 1, ch\<lparr>delay_line := None, current := None\<rparr>, h2)
           | Some (Some f, h2) \<Rightarrow> Some (0, ch\<lparr>delay_line := Some d, current := Some f\<rparr>, h2)))"

text \<open>The linear scan stops at the first entry whose rate equals the requested one.\<close>

definition update_channel_filter :: "heap \<Rightarrow> channel \<Rightarrow> int \<Rightarrow> (int \<times> channel \<times> heap) option" where
  "update_channel_filter h ch r =
     do { (new_filter, h1) \<leftarrow>
            (case find (\<lambda>e. r = rate e) (take 6 FIR_FILTERS) of
               None \<Rightarrow> Some (None, h)
             | Some e \<Rightarrow> fir_filter_clone h (Some e));
          (new_filter, h2) \<leftarrow>
            (if new_filter = None then fir_filter_clone h1 (Some (FIR_FILTERS ! 5))
             else Some (new_filter, h1));
          (if new_filter = None then Some (- 1, ch, h2)
           else Some (0, ch\<lparr>current := new_filter\<rparr>, fir_filter_free h2 (current ch))) }"

text \<open>The loop over the channels; \<open>a\<close> is \<open>actual_rate\<close>.\<close>

fun select_channels ::
  "heap \<Rightarrow> int \<Rightarrow> int \<Rightarrow> channel list \<Rightarrow> (channel list \<times> int \<times> heap) option" where
  "select_channels h r a [] = Some ([], a, h)"
| "select_channels h r a (c # cs) =
     do { (st, c1, h1) \<leftarrow> update_channel_filter h c r;
          (c2, a2, h2) \<leftarrow>
            (if st \<noteq> 0
             then do { (st', c', h') \<leftarrow> update_channel_filter h1 c1 (rate (FIR_FILTERS ! 5));
                       Some (c', rate (FIR_FILTERS ! 5), h') }
             else Some (c1, a, h1));
          (cs', a3, h3) \<leftarrow> select_channels h2 r a2 cs;
          Some (c2 # cs', a3, h3) }"

text \<open>The final \<open>printf\<close> reads \<open>channels[0].current->order\<close>.\<close>

definition select_filter_for_rate :: "heap \<Rightarrow> data \<Rightarrow> int \<Rightarrow> (data \<times> heap) option" where
  "select_filter_for_rate h d r =
     do { (cs, a, h') \<leftarrow> select_channels h r r (channels d);
          (case cs of
             [] \<Rightarrow> None
           | c0 # _ \<Rightarrow>
               (case current c0 of
                  None \<Rightarrow> None
                | Some f \<Rightarrow> Some (d\<lparr>channels := cs, current_rate := a\<rparr>, h'))) }"

section \<open>The processing callback (main.c)\<close>

text \<open>The body of the loop over the channels: append the input block, then filter.\<close>

definition process_channel ::
  "bool \<Rightarrow> heap \<Rightarrow> channel \<Rightarrow> real list option \<Rightarrow> real list option \<Rightarrow> int
     \<Rightarrow> (channel \<times> real list option) option" where
  "process_channel avx512f h ch input_buffer output_buffer n_samples =
     do { dl \<leftarrow> delay_line_append_samples (current ch) (delay_line ch) input_buffer n_samples;
          out \<leftarrow> fir_filter_apply avx512f h (current ch) dl n_samples output_buffer;
          Some (ch\<lparr>delay_line := dl\<rparr>, out) }"

fun process_channels ::
  "bool \<Rightarrow> heap \<Rightarrow> channel list \<Rightarrow> real list option list \<Rightarrow> real list option list \<Rightarrow> int
     \<Rightarrow> (channel list \<times> real list option list) option" where
  "process_channels avx512f h (c # cs) (i # ins) (ob # outs) n =
     do { (c', ob') \<leftarrow> process_channel avx512f h c i ob n;
          (cs', outs') \<leftarrow> process_channels avx512f h cs ins outs n;
          Some (c' # cs', ob' # outs') }"
| "process_channels avx512f h cs ins outs n = Some (cs, outs)"

text \<open>\<open>memset(output, 0, n_samples * sizeof(float))\<close> on an output buffer.\<close>

definition zero_fill :: "real list option \<Rightarrow> int \<Rightarrow> real list option option" where
  "zero_fill ob n =
     (case ob of
        None \<Rightarrow> Some None
      | Some out \<Rightarrow>
          if n < 0 \<or> int (length out) < n then None
          else Some (Some (replicate (nat n) 0 @ drop (nat n) out)))"

text \<open>Conversion of an unsigned value to \<open>int\<close> (32 bits, two's complement).\<close>

definition to_int32 :: "nat \<Rightarrow> int" where
  "to_int32 n = (let m = int n mod 2 ^ 32 in if m < 2 ^ 31 then m else m - 2 ^ 32)"

record spa_io_position =
  clock_duration :: nat
  clock_rate_denom :: nat

text \<open>\<open>ins\<close> and \<open>outs\<close> are the buffers that \<open>pw_filter_get_dsp_buffer\<close> hands out for the
  input and output port of each channel. The result is the state, the output buffers and the heap.\<close>

definition on_filter_process ::
  "bool \<Rightarrow> heap \<Rightarrow> data \<Rightarrow> spa_io_position option \<Rightarrow> real list option list \<Rightarrow> real list option list
     \<Rightarrow> (data \<times> real list option list \<times> heap) option" where
  "on_filter_process avx512f h d position ins outs =
     (case position of
        None \<Rightarrow> Some (d, outs, h)
      | Some pos \<Rightarrow>
          (let n_samples = to_int32 (clock_duration pos);
               r = to_int32 (clock_rate_denom pos)
           in do { (d1, h1) \<leftarrow>
                     (if r > 0 \<and> r \<noteq> current_rate d then select_filter_for_rate h d r
                      else Some (d, h));
                   (if list_all (\<lambda>b. b \<noteq> None) (take NUM_CHANNELS ins) \<and>
                       list_all (\<lambda>b. b \<noteq> None) (take NUM_CHANNELS outs)
                    then do { (cs, outs') \<leftarrow>
                                process_channels avx512f h1 (channels d1) ins outs n_samples;
                              Some (d1\<lparr>channels := cs\<rparr>, outs', h1) }
                    else do { outs' \<leftarrow> those (map (\<lambda>ob. zero_fill ob n_samples) outs);
                              Some (d1, outs', h1) }) }))"

section \<open>Specification-level notions\<close>

text \<open>The convolution sum with \<open>n\<close> taps, read from position \<open>p\<close> of the buffer on.\<close>

definition conv_at :: "nat \<Rightarrow> real list \<Rightarrow> real list \<Rightarrow> nat \<Rightarrow> real" where
  "conv_at n coeff buf p = (\<Sum>j<n. coeff ! j * buf ! (p + j))"

text \<open>The 16 lane sums after \<open>n\<close> rounds of the lane loop, read from position \<open>p\<close> on.\<close>

definition lanes :: "real list \<Rightarrow> real list \<Rightarrow> nat \<Rightarrow> nat \<Rightarrow> real list" where
  "lanes coeff buf p n = map (\<lambda>l. \<Sum>t<n. coeff ! (16 * t + l) * buf ! (p + (16 * t + l))) [0..<16]"




text \<open>The next \<open>n\<close> allocations succeed.\<close>

definition allocs_succeed :: "nat \<Rightarrow> heap \<Rightarrow> bool" where
  "allocs_succeed n h = list_all (\<lambda>b. b) (take n (alloc_ok h))"

text \<open>Every allocated array lies below the next fresh address.\<close>

definition heap_ok :: "heap \<Rightarrow> bool" where
  "heap_ok h = (dom (arrays h) \<subseteq> {..<brk h})"

text \<open>Every table entry points at an array that holds at least \<open>order\<close> coefficients.\<close>

definition table_ok :: "heap \<Rightarrow> bool" where
  "table_ok h = list_all (\<lambda>e. case arrays h (coeffs e) of None \<Rightarrow> False
                                | Some cs \<Rightarrow> order e \<le> int (length cs)) FIR_FILTERS"

text \<open>The arrays left after \<open>fir_filter_free\<close>.\<close>

definition freed :: "fir_filter option \<Rightarrow> (addr \<rightharpoonup> real list) \<Rightarrow> (addr \<rightharpoonup> real list)" where
  "freed flt m = (case flt of None \<Rightarrow> m | Some f \<Rightarrow> m(coeffs f := None))"

text \<open>The buffer content at position \<open>p\<close> after \<open>n\<close> samples of \<open>xs\<close> were appended at cursor
  \<open>idx\<close> with order \<open>o'\<close>: the block lies \<open>2 * o'\<close> below the cursor, at the cursor, and (past the
  end of the buffer) at the start.\<close>

definition appended :: "nat \<Rightarrow> nat \<Rightarrow> nat \<Rightarrow> real list \<Rightarrow> nat \<Rightarrow> real list \<Rightarrow> nat \<Rightarrow> real" where
  "appended S o' idx xs n b p =
     (if idx \<le> p + 2 * o' \<and> p + 2 * o' < idx + n then xs ! (p + 2 * o' - idx)
      else if idx \<le> p \<and> p < idx + n then xs ! (p - idx)
      else if p + S < idx + n then xs ! (p + S - idx)
      else b ! p)"

text \<open>A sequence of calls of \<open>delay_line_append_samples\<close> on one delay line, each with its filter
  and its block (\<open>count\<close> is the length of the block); \<open>None\<close> when a call writes outside the buffer.\<close>

fun append_calls :: "delay_line \<Rightarrow> (fir_filter \<times> real list) list \<Rightarrow> delay_line option" where
  "append_calls d [] = Some d"
| "append_calls d ((f, xs) # calls) =
     (case delay_line_append_samples (Some f) (Some d) (Some xs) (int (length xs)) of
        Some (Some d') \<Rightarrow> append_calls d' calls
      | _ \<Rightarrow> None)"

text \<open>The \<open>i\<close>-th most recent sample of the stream \<open>hist\<close>, silence before its start.\<close>

definition past :: "real list \<Rightarrow> nat \<Rightarrow> real" where
  "past hist i = (if i < length hist then hist ! (length hist - 1 - i) else 0)"

text \<open>The invariant of a delay line of size \<open>S\<close> used with order \<open>o'\<close> after the stream \<open>hist\<close>:
  the \<open>o'\<close> samples below the cursor are the latest ones, and from offset \<open>k\<close> of the upper
  \<open>2 * o'\<close> slots up to the cursor every slot has its copy \<open>2 * o'\<close> below.\<close>

definition line_inv :: "nat \<Rightarrow> nat \<Rightarrow> nat \<Rightarrow> real list \<Rightarrow> delay_line \<Rightarrow> bool" where
  "line_inv S o' k hist d =
     (length (buffer d) = S \<and> size_dl d = S \<and> S - 2 * o' + k \<le> index d \<and> index d < S \<and>
      (\<forall>i<o'. buffer d ! (index d - 1 - i) = past hist i) \<and>
      (\<forall>p. S - 2 * o' + k \<le> p \<and> p < index d \<longrightarrow> buffer d ! (p - 2 * o') = buffer d ! p))"

text \<open>The slice of \<open>order + count\<close> samples that starts at \<open>buffer + index - order - count\<close>.\<close>

definition apply_window :: "fir_filter \<Rightarrow> delay_line \<Rightarrow> nat \<Rightarrow> real list" where
  "apply_window f d count =
     take (nat (order f) + count) (drop (index d - nat (order f) - count) (buffer d))"

text \<open>The specification's reference: an unbounded buffer pre-filled with zeros to which the
  stream \<open>hist\<close> was appended; its last \<open>n\<close> samples.\<close>

definition reference_window :: "nat \<Rightarrow> real list \<Rightarrow> real list" where
  "reference_window n hist = drop (length hist) (replicate n 0 @ hist)"

section \<open>Verification\<close>

subsection \<open>Invalid arguments\<close>

text \<open>
  C8. \<open>fir_filter_apply\<close> and \<open>delay_line_append_samples\<close> do nothing when a pointer
  argument is null or the count is not positive: the output buffer, respectively the delay
  line, comes back as it was, and no access outside an array happens.
\<close>

theorem invalid_arguments_noop:
  "(flt = None \<or> dl = None \<or> outp = None \<or> count \<le> 0
      \<longrightarrow> fir_filter_apply avx512f h flt dl count outp = Some outp) \<and>
   (flt' = None \<or> dl' = None \<or> samples = None \<or> count' \<le> 0
      \<longrightarrow> delay_line_append_samples flt' dl' samples count' = Some dl')"
  by (auto simp: fir_filter_apply_def delay_line_append_samples_def split: option.splits)

theorem invalid_arguments_noop_witness:
  "fir_filter_apply True \<lparr>arrays = Map.empty, brk = 0, alloc_ok = []\<rparr> None
      (Some \<lparr>buffer = [0, 0, 0, 0], size_dl = 4, index = 3\<rparr>) 2 (Some [5, 6]) = Some (Some [5, 6]) \<and>
   delay_line_append_samples (Some \<lparr>rate = 48000, coeffs = 0, order = 1\<rparr>)
      (Some \<lparr>buffer = [0, 0, 0, 0], size_dl = 4, index = 3\<rparr>) (Some [7]) 0
     = Some (Some \<lparr>buffer = [0, 0, 0, 0], size_dl = 4, index = 3\<rparr>)"
  using invalid_arguments_noop [where flt = None and outp = "Some [5, 6]" and count = 2
      and dl = "Some \<lparr>buffer = [0, 0, 0, 0], size_dl = 4, index = 3\<rparr>" and avx512f = True
      and h = "\<lparr>arrays = Map.empty, brk = 0, alloc_ok = []\<rparr>"
      and flt' = "Some \<lparr>rate = 48000, coeffs = 0, order = 1\<rparr>"
      and dl' = "Some \<lparr>buffer = [0, 0, 0, 0], size_dl = 4, index = 3\<rparr>"
      and samples = "Some [7]" and count' = 0]
  by simp

subsection \<open>Closed forms of the two convolution paths\<close>

lemma those_map_Some: "those (map (\<lambda>l. Some (g l)) ls) = Some (map g ls)"
  by (induction ls) simp_all

lemma scalar_sum_Some:
  "n \<le> length coeff \<Longrightarrow> 0 \<le> k \<Longrightarrow> k + int n \<le> int (length buf) \<Longrightarrow>
   scalar_sum coeff buf k n = Some (conv_at n coeff buf (nat k))"
  unfolding conv_at_def by (induction n) (simp_all add: rd_def nat_add_distrib)

lemma scalar_rows_Some:
  "n \<le> length out \<Longrightarrow> nat len \<le> length coeff \<Longrightarrow> 0 \<le> base \<Longrightarrow>
   base + int n + int (nat len) \<le> int (length buf) + 1 \<Longrightarrow>
   scalar_rows len coeff buf base out n
     = Some (map (\<lambda>i. conv_at (nat len) coeff buf (nat base + i)) [0..<n] @ drop n out)"
proof (induction n)
  case 0
  then show ?case by simp
next
  case (Suc n)
  have s: "scalar_sum coeff buf (base + int n) (nat len) = Some (conv_at (nat len) coeff buf (nat base + n))"
    using Suc.prems by (simp add: scalar_sum_Some nat_add_distrib)
  have d: "drop n out = out ! n # drop (Suc n) out"
    using Suc.prems by (simp add: Cons_nth_drop_Suc)
  show ?case using Suc s 
    by (simp add: wr_def d list_update_append)
qed

lemma loadu_Some:
  assumes "p + 16 \<le> length xs"
  shows "loadu xs (int p) = Some (map (\<lambda>l. xs ! (p + l)) [0..<16])"
proof -
  have "map (\<lambda>l. rd xs (int p + int l)) [0..<16] = map (\<lambda>l. Some (xs ! (p + l))) [0..<16]"
    using assms by (intro map_cong refl) (simp add: rd_def nat_add_distrib)
  then show ?thesis
    unfolding loadu_def SIMD_WIDTH_AVX512_def by (simp only: those_map_Some)
qed

lemma fmadd_map:
  "fmadd (map f ls) (map g ls) (map a ls) = map (\<lambda>l. f l * g l + a l) ls"
  by (induction ls) (simp_all add: fmadd_def)

lemma setzero_map: "setzero = map (\<lambda>l. 0) [0..<16]"
  by (simp add: setzero_def SIMD_WIDTH_AVX512_def map_replicate_const)

lemma avx_acc1_Some:
  "16 * n \<le> length coeff \<Longrightarrow> p + 16 * n \<le> length buf \<Longrightarrow>
   avx_acc1 coeff buf (int p) n = Some (lanes coeff buf p n)"
proof (induction n)
  case 0
  then show ?case by (simp add: lanes_def setzero_map)
next
  case (Suc n)
  have c: "loadu coeff (int (16 * n)) = Some (map (\<lambda>l. coeff ! (16 * n + l)) [0..<16])"
    using Suc.prems by (intro loadu_Some) simp
  have "loadu buf (int (p + 16 * n)) = Some (map (\<lambda>l. buf ! (p + 16 * n + l)) [0..<16])"
    using Suc.prems by (intro loadu_Some) simp
  then have b: "loadu buf (int p + int (16 * n)) = Some (map (\<lambda>l. buf ! (p + (16 * n + l))) [0..<16])"
    by (simp add: add.assoc)
  have "avx_acc1 coeff buf (int p) (Suc n)
          = Some (fmadd (map (\<lambda>l. coeff ! (16 * n + l)) [0..<16])
                        (map (\<lambda>l. buf ! (p + (16 * n + l))) [0..<16])
                        (lanes coeff buf p n))"
    using Suc c b by (simp add: SIMD_WIDTH_AVX512_def)
  then show ?case
    by (simp add: lanes_def fmadd_map add.commute)
qed

lemma sum_blocks:
  fixes f :: "nat \<Rightarrow> real"
  shows "(\<Sum>l<16. \<Sum>t<n. f (16 * t + l)) = (\<Sum>j<16 * n. f j)"
proof (induction n)
  case 0
  then show ?case by simp
next
  case (Suc n)
  have "(\<Sum>j<16 * Suc n. f j) = (\<Sum>j<16 * n. f j) + (\<Sum>l<16. f (16 * n + l))"
    using sum.atLeastLessThan_concat [of 0 "16 * n" "16 * n + 16" f]
          sum.shift_bounds_nat_ivl [of f 0 "16 * n" 16]
    by (simp add: atLeast0LessThan add.commute)
  then show ?case using Suc by (simp add: sum.distrib)
qed

lemma reduce_add_lanes:
  "reduce_add (lanes coeff buf p n) = conv_at (16 * n) coeff buf p"
  unfolding reduce_add_def lanes_def conv_at_def
  using sum_blocks [of "\<lambda>j. coeff ! j * buf ! (p + j)" n]
  by (simp add: interv_sum_list_conv_sum_set_nat atLeast0LessThan)

lemma avx_tail1_Some:
  "m + n \<le> length coeff \<Longrightarrow> p + m + n \<le> length buf \<Longrightarrow>
   avx_tail1 coeff buf (int p) (int m) s n
     = Some (s + (\<Sum>j<n. coeff ! (m + j) * buf ! (p + (m + j))))"
  by (induction n) (simp_all add: rd_def nat_add_distrib)

lemma conv_at_split:
  "conv_at (m + n) coeff buf p
     = conv_at m coeff buf p + (\<Sum>j<n. coeff ! (m + j) * buf ! (p + (m + j)))"
  unfolding conv_at_def
  using sum.atLeastLessThan_concat [of 0 m "m + n" "\<lambda>j. coeff ! j * buf ! (p + j)"]
        sum.shift_bounds_nat_ivl [of "\<lambda>j. coeff ! j * buf ! (p + j)" 0 m n]
  by (simp add: atLeast0LessThan add.commute)

lemma avx_acc4_Some:
  "16 * n \<le> length coeff \<Longrightarrow> p + 3 + 16 * n \<le> length buf \<Longrightarrow>
   avx_acc4 coeff buf (int p) n
     = Some (lanes coeff buf p n, lanes coeff buf (p + 1) n,
             lanes coeff buf (p + 2) n, lanes coeff buf (p + 3) n)"
proof (induction n)
  case 0
  then show ?case by (simp add: lanes_def setzero_map)
next
  case (Suc n)
  have c: "loadu coeff (int (16 * n)) = Some (map (\<lambda>l. coeff ! (16 * n + l)) [0..<16])"
    using Suc.prems by (intro loadu_Some) simp
  have b: "loadu buf (int p + int u + int (16 * n)) = Some (map (\<lambda>l. buf ! (p + u + (16 * n + l))) [0..<16])"
    if "u \<le> 3" for u
  proof -
    have "loadu buf (int (p + u + 16 * n)) = Some (map (\<lambda>l. buf ! (p + u + 16 * n + l)) [0..<16])"
      using Suc.prems that by (intro loadu_Some) simp
    then show ?thesis by (simp add: add.assoc)
  qed
  have "avx_acc4 coeff buf (int p) (Suc n)
          = Some (fmadd (map (\<lambda>l. coeff ! (16 * n + l)) [0..<16])
                        (map (\<lambda>l. buf ! (p + (16 * n + l))) [0..<16]) (lanes coeff buf p n),
                  fmadd (map (\<lambda>l. coeff ! (16 * n + l)) [0..<16])
                        (map (\<lambda>l. buf ! (p + 1 + (16 * n + l))) [0..<16]) (lanes coeff buf (p + 1) n),
                  fmadd (map (\<lambda>l. coeff ! (16 * n + l)) [0..<16])
                        (map (\<lambda>l. buf ! (p + 2 + (16 * n + l))) [0..<16]) (lanes coeff buf (p + 2) n),
                  fmadd (map (\<lambda>l. coeff ! (16 * n + l)) [0..<16])
                        (map (\<lambda>l. buf ! (p + 3 + (16 * n + l))) [0..<16]) (lanes coeff buf (p + 3) n))"
    using Suc c b [of 0] b [of 1] b [of 2] b [of 3] by (simp add: SIMD_WIDTH_AVX512_def)
  then show ?case
    by (simp add: lanes_def fmadd_map add.commute)
qed

lemma avx_tail4_Some:
  "m + n \<le> length coeff \<Longrightarrow> p + 3 + m + n \<le> length buf \<Longrightarrow>
   avx_tail4 coeff buf (int p) (int m) (s0, s1, s2, s3) n
     = Some (s0 + (\<Sum>j<n. coeff ! (m + j) * buf ! (p + (m + j))),
             s1 + (\<Sum>j<n. coeff ! (m + j) * buf ! (p + 1 + (m + j))),
             s2 + (\<Sum>j<n. coeff ! (m + j) * buf ! (p + 2 + (m + j))),
             s3 + (\<Sum>j<n. coeff ! (m + j) * buf ! (p + 3 + (m + j))))"
  by (induction n) (simp_all add: rd_def nat_add_distrib)

text \<open>One output of the vectorised path: lane loop, reduction, scalar tail.\<close>

lemma avx_row:
  "reduce_add (lanes coeff buf p (len div 16))
     + (\<Sum>j<len - len div 16 * 16. coeff ! (len div 16 * 16 + j) * buf ! (p + (len div 16 * 16 + j)))
   = conv_at len coeff buf p"
proof -
  have "len = 16 * (len div 16) + (len - len div 16 * 16)"
    by simp
  then have "conv_at len coeff buf p
      = conv_at (16 * (len div 16) + (len - len div 16 * 16)) coeff buf p"
    by simp
  also have "\<dots> = conv_at (16 * (len div 16)) coeff buf p
      + (\<Sum>j<len - len div 16 * 16. coeff ! (16 * (len div 16) + j) * buf ! (p + (16 * (len div 16) + j)))"
    by (rule conv_at_split)
  finally show ?thesis
    by (simp add: reduce_add_lanes mult.commute)
qed

lemma wr_next:
  "i < length out \<Longrightarrow>
   wr (map g [0..<i] @ drop i out) (int i) (g i) = Some (map g [0..<Suc i] @ drop (Suc i) out)"
proof -
  assume a: "i < length out"
  then have d: "drop i out = out ! i # drop (Suc i) out"
    by (simp add: Cons_nth_drop_Suc)
  show ?thesis using a by (simp add: wr_def d list_update_append)
qed

lemma c_div_int: "c_div (int a) (int b) = int (a div b)"
  by (cases "a = 0"; cases "b = 0") (simp_all add: c_div_def zdiv_int)

lemma avx_batches_Some:
  assumes "L \<le> length coeff" "4 * n \<le> length out" "p + 4 * n + L \<le> length buf + 1"
  shows "avx_batches (int L) (int (L div 16 * 16)) coeff buf (int p) out n
           = Some (map (\<lambda>i. conv_at L coeff buf (p + i)) [0..<4 * n] @ drop (4 * n) out)"
  using assms
proof (induction n)
  case 0
  then show ?case by simp
next
  case (Suc n)
  let ?g = "\<lambda>i. conv_at L coeff buf (p + i)"
  let ?m = "L div 16 * 16"
  have m: "?m \<le> L" by simp
  have ih: "avx_batches (int L) (int ?m) coeff buf (int p) out n
              = Some (map ?g [0..<4 * n] @ drop (4 * n) out)"
    using Suc by simp
  have acc: "avx_acc4 coeff buf (int (p + 4 * n)) (L div 16)
               = Some (lanes coeff buf (p + 4 * n) (L div 16), lanes coeff buf (p + 4 * n + 1) (L div 16),
                       lanes coeff buf (p + 4 * n + 2) (L div 16), lanes coeff buf (p + 4 * n + 3) (L div 16))"
    using Suc.prems m by (intro avx_acc4_Some) simp_all
  have tl: "avx_tail4 coeff buf (int (p + 4 * n)) (int ?m)
              (reduce_add (lanes coeff buf (p + 4 * n) (L div 16)),
               reduce_add (lanes coeff buf (p + 4 * n + 1) (L div 16)),
               reduce_add (lanes coeff buf (p + 4 * n + 2) (L div 16)),
               reduce_add (lanes coeff buf (p + 4 * n + 3) (L div 16))) (L - ?m)
            = Some (?g (4 * n), ?g (4 * n + 1), ?g (4 * n + 2), ?g (4 * n + 3))"
  proof -
    have "?m + (L - ?m) \<le> length coeff" "p + 4 * n + 3 + ?m + (L - ?m) \<le> length buf"
      using Suc.prems m by simp_all
    from avx_tail4_Some [OF this]
    have "avx_tail4 coeff buf (int (p + 4 * n)) (int ?m)
              (reduce_add (lanes coeff buf (p + 4 * n) (L div 16)),
               reduce_add (lanes coeff buf (p + 4 * n + 1) (L div 16)),
               reduce_add (lanes coeff buf (p + 4 * n + 2) (L div 16)),
               reduce_add (lanes coeff buf (p + 4 * n + 3) (L div 16))) (L - ?m)
            = Some (conv_at L coeff buf (p + 4 * n), conv_at L coeff buf (p + 4 * n + 1),
                    conv_at L coeff buf (p + 4 * n + 2), conv_at L coeff buf (p + 4 * n + 3))"
      by (simp only: avx_row)
    then show ?thesis
      by (simp add: add.assoc)
  qed
  have w0: "wr (map ?g [0..<4 * n] @ drop (4 * n) out) (int (4 * n)) (?g (4 * n))
              = Some (map ?g [0..<Suc (4 * n)] @ drop (Suc (4 * n)) out)"
    using Suc.prems by (intro wr_next) simp
  have w1: "wr (map ?g [0..<Suc (4 * n)] @ drop (Suc (4 * n)) out) (int (Suc (4 * n))) (?g (Suc (4 * n)))
              = Some (map ?g [0..<Suc (Suc (4 * n))] @ drop (Suc (Suc (4 * n))) out)"
    using Suc.prems by (intro wr_next) simp
  have w2: "wr (map ?g [0..<Suc (Suc (4 * n))] @ drop (Suc (Suc (4 * n))) out) (int (Suc (Suc (4 * n))))
               (?g (Suc (Suc (4 * n))))
              = Some (map ?g [0..<Suc (Suc (Suc (4 * n)))] @ drop (Suc (Suc (Suc (4 * n)))) out)"
    using Suc.prems by (intro wr_next) simp
  have w3: "wr (map ?g [0..<Suc (Suc (Suc (4 * n)))] @ drop (Suc (Suc (Suc (4 * n)))) out)
               (int (Suc (Suc (Suc (4 * n))))) (?g (Suc (Suc (Suc (4 * n)))))
              = Some (map ?g [0..<Suc (Suc (Suc (Suc (4 * n))))] @ drop (Suc (Suc (Suc (Suc (4 * n))))) out)"
    using Suc.prems by (intro wr_next) simp
  have e4: "4 * Suc n = Suc (Suc (Suc (Suc (4 * n))))"
    by simp
  have e: "int p + int (4 * n) = int (p + 4 * n)" "nat (int ?m) div 16 = L div 16"
          "nat (int L - int ?m) = L - ?m"
    by simp_all
  have i: "int (4 * n) + 0 = int (4 * n)" "int (4 * n) + 1 = int (Suc (4 * n))"
          "int (4 * n) + 2 = int (Suc (Suc (4 * n)))" "int (4 * n) + 3 = int (Suc (Suc (Suc (4 * n))))"
          "4 * n + 1 = Suc (4 * n)" "4 * n + 2 = Suc (Suc (4 * n))" "4 * n + 3 = Suc (Suc (Suc (4 * n)))"
    by simp_all
  show ?case
    unfolding avx_batches.simps SIMD_WIDTH_AVX512_def OUTPUT_UNROLL_FACTOR_def ih e e4
    using acc tl w0 w1 w2 w3
    by (simp only: i bind.bind_lunit split)
qed

lemma avx_rest_Some:
  assumes "L \<le> length coeff" "vc + n \<le> length out" "p + vc + n + L \<le> length buf + 1"
  shows "avx_rest (int L) (int (L div 16 * 16)) (int vc) coeff buf (int p)
           (map (\<lambda>i. conv_at L coeff buf (p + i)) [0..<vc] @ drop vc out) n
         = Some (map (\<lambda>i. conv_at L coeff buf (p + i)) [0..<vc + n] @ drop (vc + n) out)"
  using assms
proof (induction n)
  case 0
  then show ?case by simp
next
  case (Suc n)
  let ?g = "\<lambda>i. conv_at L coeff buf (p + i)"
  let ?m = "L div 16 * 16"
  have m: "?m \<le> L" by simp
  have ih: "avx_rest (int L) (int ?m) (int vc) coeff buf (int p) (map ?g [0..<vc] @ drop vc out) n
              = Some (map ?g [0..<vc + n] @ drop (vc + n) out)"
    using Suc by simp
  have acc: "avx_acc1 coeff buf (int (p + (vc + n))) (L div 16) = Some (lanes coeff buf (p + (vc + n)) (L div 16))"
    using Suc.prems m by (intro avx_acc1_Some) simp_all
  have tl: "avx_tail1 coeff buf (int (p + (vc + n))) (int ?m)
              (reduce_add (lanes coeff buf (p + (vc + n)) (L div 16))) (L - ?m)
            = Some (?g (vc + n))"
  proof -
    have "?m + (L - ?m) \<le> length coeff" "p + (vc + n) + ?m + (L - ?m) \<le> length buf"
      using Suc.prems m by simp_all
    from avx_tail1_Some [OF this] show ?thesis
      by (simp only: avx_row)
  qed
  have w: "wr (map ?g [0..<vc + n] @ drop (vc + n) out) (int (vc + n)) (?g (vc + n))
              = Some (map ?g [0..<Suc (vc + n)] @ drop (Suc (vc + n)) out)"
    using Suc.prems by (intro wr_next) simp
  have e: "int p + (int vc + int n) = int (p + (vc + n))" "int p + int (vc + n) = int (p + (vc + n))"
          "nat (int ?m) div 16 = L div 16"
          "nat (int L - int ?m) = L - ?m" "int vc + int n = int (vc + n)" "vc + Suc n = Suc (vc + n)"
    by simp_all
  show ?case
    unfolding avx_rest.simps SIMD_WIDTH_AVX512_def ih e
    using acc tl w
    by (simp only: bind.bind_lunit)
qed

lemma fir_filter_apply_avx512_Some:
  assumes "L \<le> length coeff" "C \<le> length out" "p + C + L \<le> length buf + 1"
  shows "fir_filter_apply_avx512 (int L) coeff (int C) buf (int p) out
           = Some (map (\<lambda>i. conv_at L coeff buf (p + i)) [0..<C] @ drop C out)"
proof -
  let ?g = "\<lambda>i. conv_at L coeff buf (p + i)"
  let ?vc = "C div 4 * 4"
  have vc: "?vc \<le> C" by simp
  have b: "avx_batches (int L) (int (L div 16 * 16)) coeff buf (int p) out (C div 4)
             = Some (map ?g [0..<4 * (C div 4)] @ drop (4 * (C div 4)) out)"
    using assms vc by (intro avx_batches_Some) simp_all
  have r: "avx_rest (int L) (int (L div 16 * 16)) (int ?vc) coeff buf (int p)
             (map ?g [0..<?vc] @ drop ?vc out) (C - ?vc)
           = Some (map ?g [0..<?vc + (C - ?vc)] @ drop (?vc + (C - ?vc)) out)"
    using assms vc by (intro avx_rest_Some) simp_all
  have e: "nat (int ?vc) div 4 = C div 4" "nat (int C - int ?vc) = C - ?vc" "?vc + (C - ?vc) = C"
          "4 * (C div 4) = ?vc"
    by simp_all
  have d: "c_div (int L) (int 16) * int 16 = int (L div 16 * 16)"
          "c_div (int C) (int 4) * int 4 = int ?vc"
    by (simp_all only: c_div_int of_nat_mult)
  show ?thesis
    unfolding fir_filter_apply_avx512_def SIMD_WIDTH_AVX512_def OUTPUT_UNROLL_FACTOR_def Let_def d
    using b r by (simp only: e bind.bind_lunit)
qed

lemma fir_filter_apply_scalar_Some:
  assumes "L \<le> length coeff" "C \<le> length out" "p + C + L \<le> length buf + 1"
  shows "fir_filter_apply_scalar (int L) coeff (int C) buf (int p) out
           = Some (map (\<lambda>i. conv_at L coeff buf (p + i)) [0..<C] @ drop C out)"
  using assms scalar_rows_Some [of C out "int L" coeff "int p" buf]
  by (simp add: fir_filter_apply_scalar_def)

lemma apply_paths_Some:
  assumes "0 \<le> len" "len \<le> int (length coeff)" "0 \<le> count" "count \<le> int (length out)"
    "0 \<le> base" "base + count + len \<le> int (length buf) + 1"
  shows "(if avx512f then fir_filter_apply_avx512 else fir_filter_apply_scalar) len coeff count buf base out
           = Some (map (\<lambda>i. conv_at (nat len) coeff buf (nat base + i)) [0..<nat count] @ drop (nat count) out)"
proof -
  have c: "nat len \<le> length coeff" "nat count \<le> length out"
          "nat base + nat count + nat len \<le> length buf + 1"
    using assms by linarith+
  have e: "len = int (nat len)" "count = int (nat count)" "base = int (nat base)"
    using assms by simp_all
  show ?thesis
    using fir_filter_apply_avx512_Some [OF c] fir_filter_apply_scalar_Some [OF c] e
    by (cases avx512f) simp_all
qed

subsection \<open>The vectorised path against the scalar path\<close>

text \<open>
  In exact arithmetic the AVX-512 path and the scalar path write the same output array
  whenever their reads and writes stay inside the arrays: each output \<open>i\<close> is the sum of
  \<open>coeff[j] * samples[i + j]\<close> over \<open>j < len\<close>. So both paths read the same products. This
  says nothing about the single-precision results of the two paths, which depend on the
  rounding of every operation (one rounding in a fused multiply-add, two in a multiplication
  followed by an addition) and on the order of the additions.
\<close>

lemma avx512_computes_scalar_sum:
  assumes "0 \<le> len" "len \<le> int (length coeff)" "0 < count" "count \<le> int (length out)"
    "0 \<le> base" "base + count + len \<le> int (length buf) + 1"
  shows "\<exists>out'. fir_filter_apply_avx512 len coeff count buf base out = Some out' \<and>
           fir_filter_apply_scalar len coeff count buf base out = Some out' \<and>
           length out' = length out \<and>
           (\<forall>i<nat count. out' ! i = (\<Sum>j<nat len. coeff ! j * buf ! (nat base + i + j)))"
proof -
  let ?out = "map (\<lambda>i. conv_at (nat len) coeff buf (nat base + i)) [0..<nat count] @ drop (nat count) out"
  have a: "fir_filter_apply_avx512 len coeff count buf base out = Some ?out"
    using apply_paths_Some [of len coeff count out base buf True] assms by simp
  have s: "fir_filter_apply_scalar len coeff count buf base out = Some ?out"
    using apply_paths_Some [of len coeff count out base buf False] assms by simp
  have l: "length ?out = length out"
    using assms by simp
  have v: "\<forall>i<nat count. ?out ! i = (\<Sum>j<nat len. coeff ! j * buf ! (nat base + i + j))"
    by (simp add: nth_append conv_at_def)
  show ?thesis using a s l v by blast
qed

lemma avx512_computes_scalar_sum_example:
  "\<exists>out'. fir_filter_apply_avx512 17 (map real [1..<18]) 5 (map real [0..<21]) 0 [0, 0, 0, 0, 0, 9] = Some out' \<and>
     fir_filter_apply_scalar 17 (map real [1..<18]) 5 (map real [0..<21]) 0 [0, 0, 0, 0, 0, 9] = Some out' \<and>
     length out' = 6"
  using avx512_computes_scalar_sum [of 17 "map real [1..<18]" 5 "[0, 0, 0, 0, 0, 9]" 0 "map real [0..<21]"]
  by auto

subsection \<open>What \<open>fir_filter_apply\<close> computes\<close>


text \<open>
  C2, as the code has it. For non-null arguments and \<open>count > 0\<close>, with the window inside the
  buffer, \<open>output[i]\<close> for \<open>i < count\<close> is the sum of \<open>coeff[j] * window[i + j]\<close> over
  \<open>j < order\<close> (that is \<open>order\<close> terms, \<open>coeff[order]\<close> is not read), where the window starts at
  \<open>buffer + index - order - count\<close>; the rest of the output buffer is left alone.
\<close>

theorem fir_filter_apply_sum:
  assumes "arrays h (coeffs f) = Some cs" "0 \<le> order f" "order f \<le> int (length cs)"
    "0 < count" "count \<le> int (length out)"
    "order f + count \<le> int (index d)" "index d \<le> length (buffer d)"
  shows "\<exists>out'. fir_filter_apply avx512f h (Some f) (Some d) count (Some out) = Some (Some out') \<and>
           length out' = length out \<and>
           (\<forall>i<nat count. out' ! i =
              (\<Sum>j<nat (order f). cs ! j * buffer d ! (nat (int (index d) - order f - count) + i + j))) \<and>
           (\<forall>i. nat count \<le> i \<and> i < length out \<longrightarrow> out' ! i = out ! i)"
proof -
  let ?base = "int (index d) - order f - count"
  let ?out = "map (\<lambda>i. conv_at (nat (order f)) cs (buffer d) (nat ?base + i)) [0..<nat count]
                @ drop (nat count) out"
  have p: "(if avx512f then fir_filter_apply_avx512 else fir_filter_apply_scalar)
             (order f) cs count (buffer d) ?base out = Some ?out"
    using assms by (intro apply_paths_Some) simp_all
  have a: "fir_filter_apply avx512f h (Some f) (Some d) count (Some out) = Some (Some ?out)"
    using assms p by (simp add: fir_filter_apply_def)
  have l: "length ?out = length out"
    using assms by simp
  have v: "\<forall>i<nat count. ?out ! i =
             (\<Sum>j<nat (order f). cs ! j * buffer d ! (nat ?base + i + j))"
    by (simp add: nth_append conv_at_def)
  have r: "\<forall>i. nat count \<le> i \<and> i < length out \<longrightarrow> ?out ! i = out ! i"
    using assms by (simp add: nth_append)
  show ?thesis using a l v r by blast
qed

theorem fir_filter_apply_sum_witness:
  "\<exists>out'. fir_filter_apply True \<lparr>arrays = [0 \<mapsto> [1/10, 2/10, 3/10, 4/10]], brk = 1, alloc_ok = []\<rparr>
     (Some \<lparr>rate = 48000, coeffs = 0, order = 3\<rparr>)
     (Some \<lparr>buffer = [0, 0, 0, 0, 0, 1, 0, 0, 0, 0, 0, 1], size_dl = 12, index = 7\<rparr>) 1 (Some [0])
     = Some (Some out') \<and> length out' = 1 \<and> out' ! 0 = 3/10"
  using fir_filter_apply_sum [of "\<lparr>arrays = [0 \<mapsto> [1/10, 2/10, 3/10, 4/10]], brk = 1, alloc_ok = []\<rparr>"
      "\<lparr>rate = 48000, coeffs = 0, order = 3\<rparr>" "[1/10, 2/10, 3/10, 4/10]" 1 "[0]"
      "\<lparr>buffer = [0, 0, 0, 0, 0, 1, 0, 0, 0, 0, 0, 1], size_dl = 12, index = 7\<rparr>" True]
  by (simp add: eval_nat_numeral lessThan_Suc)

text \<open>
  C2 as stated fails: for order 3 and the delay line left by appending the impulse \<open>[1]\<close> to a
  fresh line of size 12 (index 6, so the window starts at offset \<open>6 - 3 - 1\<close>), the code writes
  \<open>0\<close>, while the sum with \<open>order + 1 = 4\<close> terms over that window is \<open>0.4\<close>.
\<close>

theorem apply_window_counterexample:
  "fir_filter_apply False \<lparr>arrays = [0 \<mapsto> [1/10, 2/10, 3/10, 4/10]], brk = 1, alloc_ok = []\<rparr>
     (Some \<lparr>rate = 48000, coeffs = 0, order = 3\<rparr>)
     (Some \<lparr>buffer = [0, 0, 0, 0, 0, 1, 0, 0, 0, 0, 0, 1], size_dl = 12, index = 6\<rparr>) 1 (Some [0])
     = Some (Some [0]) \<and>
   conv_at (3 + 1) [1/10, 2/10, 3/10, 4/10] [0, 0, 0, 0, 0, 1, 0, 0, 0, 0, 0, 1] (6 - 3 - 1) = 4/10"
  by code_simp

subsection \<open>Reading and writing at a natural offset\<close>

lemma rd_int: "i < length xs \<Longrightarrow> rd xs (int i) = Some (xs ! i)"
  by (simp add: rd_def)

lemma wr_int: "i < length xs \<Longrightarrow> wr xs (int i) v = Some (xs[i := v])"
  by (simp add: wr_def)

subsection \<open>Cloning a filter\<close>

lemma malloc_succeeds:
  "allocs_succeed (Suc n) h \<Longrightarrow>
   malloc h = (True, h\<lparr>alloc_ok := tl (alloc_ok h)\<rparr>) \<and> allocs_succeed n (h\<lparr>alloc_ok := tl (alloc_ok h)\<rparr>)"
  by (cases "alloc_ok h") (simp_all add: malloc_def allocs_succeed_def)

lemma malloc_frame:
  "malloc h = (b, h') \<Longrightarrow> arrays h' = arrays h \<and> brk h' = brk h"
  by (auto simp: malloc_def split: list.splits)

lemma fir_filter_clone_Some:
  assumes "allocs_succeed 2 h" "0 \<le> order f" "arrays h (coeffs f) = Some cs" "order f \<le> int (length cs)"
  shows "fir_filter_clone h (Some f)
         = Some (Some \<lparr>rate = rate f, coeffs = brk h, order = order f\<rparr>,
                 h\<lparr>alloc_ok := tl (tl (alloc_ok h)),
                   arrays := (arrays h)(brk h \<mapsto> take (nat (order f)) cs),
                   brk := Suc (brk h)\<rparr>)"
proof -
  let ?h1 = "h\<lparr>alloc_ok := tl (alloc_ok h)\<rparr>"
  have a: "allocs_succeed (Suc (Suc 0)) h" using assms by (simp add: numeral_2_eq_2)
  have m1: "malloc h = (True, ?h1)" and s1: "allocs_succeed (Suc 0) ?h1"
    using malloc_succeeds [OF a] by simp_all
  have m2: "malloc ?h1 = (True, ?h1\<lparr>alloc_ok := tl (alloc_ok ?h1)\<rparr>)"
    using malloc_succeeds [OF s1] by simp
  show ?thesis
    using assms by (simp add: fir_filter_clone_def m1 m2)
qed

lemma fir_filter_clone_cases:
  assumes "fir_filter_clone h (Some f) = Some (r, h')"
  shows "(r = None \<and> arrays h' = arrays h \<and> brk h' = brk h) \<or>
         (\<exists>cs. arrays h (coeffs f) = Some cs \<and> 0 \<le> order f \<and> order f \<le> int (length cs) \<and>
               r = Some \<lparr>rate = rate f, coeffs = brk h, order = order f\<rparr> \<and>
               arrays h' = (arrays h)(brk h \<mapsto> take (nat (order f)) cs) \<and> brk h' = Suc (brk h))"
proof -
  obtain b1 h1 where m1: "malloc h = (b1, h1)" by (cases "malloc h")
  obtain b2 h2 where m2: "malloc h1 = (b2, h2)" by (cases "malloc h1")
  have f: "arrays h2 = arrays h" "brk h2 = brk h" "arrays h1 = arrays h" "brk h1 = brk h"
    using malloc_frame [OF m1] malloc_frame [OF m2] by simp_all
  show ?thesis
    using assms f
    by (auto simp: fir_filter_clone_def m1 m2 split: bool.splits if_splits option.splits)
qed

text \<open>
  C7, as the code has it. When both allocations succeed, \<open>fir_filter_clone\<close> returns an instance
  with the same rate and order whose array is freshly allocated and holds a copy of the first
  \<open>order\<close> coefficients of the original (not \<open>order + 1\<close>); overwriting or freeing the clone's
  array leaves the original's array as it was.
\<close>

theorem fir_filter_clone_copy:
  assumes "allocs_succeed 2 h" "heap_ok h" "0 \<le> order f" "arrays h (coeffs f) = Some cs"
    "order f \<le> int (length cs)"
  shows "\<exists>g h'. fir_filter_clone h (Some f) = Some (Some g, h') \<and>
           rate g = rate f \<and> order g = order f \<and>
           coeffs g \<notin> dom (arrays h) \<and>
           arrays h' (coeffs g) = Some (take (nat (order f)) cs) \<and>
           arrays h' (coeffs f) = Some cs \<and>
           (\<forall>v. arrays (h'\<lparr>arrays := (arrays h')(coeffs g \<mapsto> v)\<rparr>) (coeffs f) = Some cs) \<and>
           arrays (fir_filter_free h' (Some g)) (coeffs f) = Some cs"
proof -
  have n: "brk h \<notin> dom (arrays h)"
    using assms(2) by (auto simp: heap_ok_def)
  then have d: "coeffs f \<noteq> brk h"
    using assms(4) by auto
  show ?thesis
    using fir_filter_clone_Some [OF assms(1,3,4,5)] n d assms(4)
    by (simp add: fir_filter_free_def free_def)
qed

theorem fir_filter_clone_copy_witness:
  "\<exists>g h'. fir_filter_clone \<lparr>arrays = [0 \<mapsto> [1/10, 2/10, 3/10, 4/10]], brk = 1, alloc_ok = [True]\<rparr>
              (Some \<lparr>rate = 48000, coeffs = 0, order = 3\<rparr>) = Some (Some g, h') \<and>
           rate g = 48000 \<and> order g = 3 \<and> coeffs g \<noteq> 0 \<and>
           arrays h' (coeffs g) = Some [1/10, 2/10, 3/10] \<and>
           arrays h' 0 = Some [1/10, 2/10, 3/10, 4/10] \<and>
           arrays (fir_filter_free h' (Some g)) 0 = Some [1/10, 2/10, 3/10, 4/10]"
  using fir_filter_clone_copy [of "\<lparr>arrays = [0 \<mapsto> [1/10, 2/10, 3/10, 4/10]], brk = 1, alloc_ok = [True]\<rparr>"
          "\<lparr>rate = 48000, coeffs = 0, order = 3\<rparr>" "[1/10, 2/10, 3/10, 4/10]"]
  by (simp add: allocs_succeed_def heap_ok_def eval_nat_numeral) blast

text \<open>
  C7 as stated fails: the clone of an order-3 filter with the four coefficients
  \<open>[0.1, 0.2, 0.3, 0.4]\<close> holds the three coefficients \<open>[0.1, 0.2, 0.3]\<close>.
\<close>

theorem fir_filter_clone_counterexample:
  "map_option fst (fir_filter_clone \<lparr>arrays = [0 \<mapsto> [1/10, 2/10, 3/10, 4/10]], brk = 1, alloc_ok = []\<rparr>
                     (Some \<lparr>rate = 48000, coeffs = 0, order = 3\<rparr>))
     = Some (Some \<lparr>rate = 48000, coeffs = 1, order = 3\<rparr>) \<and>
   arrays (snd (the (fir_filter_clone \<lparr>arrays = [0 \<mapsto> [1/10, 2/10, 3/10, 4/10]], brk = 1, alloc_ok = []\<rparr>
                     (Some \<lparr>rate = 48000, coeffs = 0, order = 3\<rparr>)))) 1
     = Some [1/10, 2/10, 3/10] \<and>
   Some [1/10, 2/10, 3/10]
     \<noteq> arrays \<lparr>arrays = [0 \<mapsto> [1/10, 2/10, 3/10, 4/10 :: real]], brk = 1, alloc_ok = []\<rparr> 0"
  by (simp add: fir_filter_clone_def malloc_def)

text \<open>When its two allocations succeed, \<open>delay_line_init\<close> returns the zero-filled line with the
  index at \<open>size - 1\<close>; the statements below start from this line.\<close>

lemma delay_line_init_fresh:
  assumes "allocs_succeed 2 h" "0 < sz"
  shows "fst (delay_line_init h sz) = Some \<lparr>buffer = replicate sz 0, size_dl = sz, index = sz - 1\<rparr>"
proof -
  let ?h1 = "h\<lparr>alloc_ok := tl (alloc_ok h)\<rparr>"
  have a: "allocs_succeed (Suc (Suc 0)) h" using assms by (simp add: numeral_2_eq_2)
  have m1: "malloc h = (True, ?h1)" and s1: "allocs_succeed (Suc 0) ?h1"
    using malloc_succeeds [OF a] by simp_all
  have m2: "malloc ?h1 = (True, ?h1\<lparr>alloc_ok := tl (alloc_ok ?h1)\<rparr>)"
    using malloc_succeeds [OF s1] by simp
  show ?thesis
    using assms by (simp add: delay_line_init_def m1 m2)
qed

subsection \<open>Selecting the filter for a rate\<close>

lemma arrays_fir_filter_free: "arrays (fir_filter_free h flt) = freed flt (arrays h)"
  by (cases flt) (simp_all add: fir_filter_free_def free_def freed_def)

lemma brk_fir_filter_free: "brk (fir_filter_free h flt) = brk h"
  by (cases flt) (simp_all add: fir_filter_free_def free_def)

lemma table_scan:
  "find (\<lambda>e. r = rate e) (take 6 FIR_FILTERS) = Some e \<Longrightarrow> e \<in> set FIR_FILTERS \<and> rate e = r"
  "find (\<lambda>e. r = rate e) (take 6 FIR_FILTERS) = None \<Longrightarrow> \<forall>e\<in>set FIR_FILTERS. rate e \<noteq> r"
  by (auto simp: FIR_FILTERS_def split: if_splits)

lemma table_last: "FIR_FILTERS ! 5 \<in> set FIR_FILTERS" "rate (FIR_FILTERS ! 5) = 192000"
  "order (FIR_FILTERS ! 5) = 16383" "coeffs (FIR_FILTERS ! 5) = FIR_COEFF_192000"
  by (simp_all add: FIR_FILTERS_def)

lemma table_rates_distinct:
  "e \<in> set FIR_FILTERS \<Longrightarrow> e' \<in> set FIR_FILTERS \<Longrightarrow> rate e = rate e' \<Longrightarrow> e = e'"
  by (auto simp: FIR_FILTERS_def)

text \<open>Every outcome of \<open>update_channel_filter\<close>: either nothing changes and \<open>-1\<close> comes back,
  or the channel holds a fresh copy of a table entry and the old array is released.\<close>

lemma update_channel_filter_cases:
  assumes "update_channel_filter h ch r = Some (st, ch', h')"
  shows "(st = - 1 \<and> ch' = ch \<and> arrays h' = arrays h \<and> brk h' = brk h) \<or>
         (st = 0 \<and> (\<exists>e\<in>set FIR_FILTERS. \<exists>cs. arrays h (coeffs e) = Some cs \<and> 0 \<le> order e \<and>
              order e \<le> int (length cs) \<and>
              ch' = ch\<lparr>current := Some \<lparr>rate = rate e, coeffs = brk h, order = order e\<rparr>\<rparr> \<and>
              arrays h' = freed (current ch) ((arrays h)(brk h \<mapsto> take (nat (order e)) cs)) \<and>
              brk h' = Suc (brk h)))"
proof -
  obtain nf1 h1 where s1: "(case find (\<lambda>e. r = rate e) (take 6 FIR_FILTERS) of
               None \<Rightarrow> Some (None, h) | Some e \<Rightarrow> fir_filter_clone h (Some e)) = Some (nf1, h1)"
    using assms by (auto simp: update_channel_filter_def split: Option.bind_splits)
  obtain nf2 h2 where s2: "(if nf1 = None then fir_filter_clone h1 (Some (FIR_FILTERS ! 5))
             else Some (nf1, h1)) = Some (nf2, h2)"
    using assms s1 by (auto simp: update_channel_filter_def split: Option.bind_splits)
  have res: "(st, ch', h') = (if nf2 = None then (- 1, ch, h2)
             else (0, ch\<lparr>current := nf2\<rparr>, fir_filter_free h2 (current ch)))"
    using assms s1 s2 by (auto simp: update_channel_filter_def split: if_splits)
  have c1: "(nf1 = None \<and> arrays h1 = arrays h \<and> brk h1 = brk h) \<or>
            (\<exists>e\<in>set FIR_FILTERS. \<exists>cs. arrays h (coeffs e) = Some cs \<and> 0 \<le> order e \<and>
               order e \<le> int (length cs) \<and>
               nf1 = Some \<lparr>rate = rate e, coeffs = brk h, order = order e\<rparr> \<and>
               arrays h1 = (arrays h)(brk h \<mapsto> take (nat (order e)) cs) \<and> brk h1 = Suc (brk h))"
  proof (cases "find (\<lambda>e. r = rate e) (take 6 FIR_FILTERS)")
    case None
    then show ?thesis using s1 by simp
  next
    case (Some e)
    then have "fir_filter_clone h (Some e) = Some (nf1, h1)" "e \<in> set FIR_FILTERS"
      using s1 table_scan(1) [OF Some] by simp_all
    then show ?thesis
      using fir_filter_clone_cases [of h e nf1 h1] by blast
  qed
  have c2: "(nf2 = None \<and> arrays h2 = arrays h \<and> brk h2 = brk h) \<or>
            (\<exists>e\<in>set FIR_FILTERS. \<exists>cs. arrays h (coeffs e) = Some cs \<and> 0 \<le> order e \<and>
               order e \<le> int (length cs) \<and>
               nf2 = Some \<lparr>rate = rate e, coeffs = brk h, order = order e\<rparr> \<and>
               arrays h2 = (arrays h)(brk h \<mapsto> take (nat (order e)) cs) \<and> brk h2 = Suc (brk h))"
  proof (cases "nf1 = None")
    case True
    then have f: "arrays h1 = arrays h" "brk h1 = brk h"
      using c1 by auto
    have "fir_filter_clone h1 (Some (FIR_FILTERS ! 5)) = Some (nf2, h2)"
      using s2 True by simp
    then show ?thesis
      using fir_filter_clone_cases [of h1 "FIR_FILTERS ! 5" nf2 h2] table_last(1) f by auto
  next
    case False
    then show ?thesis using s2 c1 by auto
  qed
  from c2 show ?thesis
  proof (elim disjE conjE bexE exE)
    assume "nf2 = None" "arrays h2 = arrays h" "brk h2 = brk h"
    then show ?thesis using res by simp
  next
    fix e cs
    assume e: "e \<in> set FIR_FILTERS" "arrays h (coeffs e) = Some cs" "0 \<le> order e"
      "order e \<le> int (length cs)"
      and n: "nf2 = Some \<lparr>rate = rate e, coeffs = brk h, order = order e\<rparr>"
      and a: "arrays h2 = (arrays h)(brk h \<mapsto> take (nat (order e)) cs)" "brk h2 = Suc (brk h)"
    have "st = 0" "ch' = ch\<lparr>current := Some \<lparr>rate = rate e, coeffs = brk h, order = order e\<rparr>\<rparr>"
         "arrays h' = freed (current ch) ((arrays h)(brk h \<mapsto> take (nat (order e)) cs))"
         "brk h' = Suc (brk h)"
      using res n a by (simp_all add: arrays_fir_filter_free brk_fir_filter_free)
    then show ?thesis using e by blast
  qed
qed

lemma table_entry_ok:
  assumes "table_ok h" "e \<in> set FIR_FILTERS"
  shows "\<exists>cs. arrays h (coeffs e) = Some cs \<and> order e \<le> int (length cs) \<and> 0 \<le> order e"
proof -
  have "case arrays h (coeffs e) of None \<Rightarrow> False | Some cs \<Rightarrow> order e \<le> int (length cs)"
    using assms by (simp add: table_ok_def list_all_iff)
  moreover have "0 \<le> order e"
    using assms(2) by (auto simp: FIR_FILTERS_def)
  ultimately show ?thesis
    by (cases "arrays h (coeffs e)") simp_all
qed

lemma update_channel_filter_Some:
  assumes "allocs_succeed 2 h" "table_ok h"
  shows "\<exists>e\<in>set FIR_FILTERS. \<exists>cs.
           (rate e = r \<or> (\<forall>e'\<in>set FIR_FILTERS. rate e' \<noteq> r) \<and> e = FIR_FILTERS ! 5) \<and>
           arrays h (coeffs e) = Some cs \<and>
           update_channel_filter h ch r
             = Some (0, ch\<lparr>current := Some \<lparr>rate = rate e, coeffs = brk h, order = order e\<rparr>\<rparr>,
                     fir_filter_free
                       (h\<lparr>alloc_ok := tl (tl (alloc_ok h)),
                          arrays := (arrays h)(brk h \<mapsto> take (nat (order e)) cs),
                          brk := Suc (brk h)\<rparr>) (current ch))"
proof (cases "find (\<lambda>e. r = rate e) (take 6 FIR_FILTERS)")
  case None
  let ?e = "FIR_FILTERS ! 5"
  obtain cs where cs: "arrays h (coeffs ?e) = Some cs" "order ?e \<le> int (length cs)" "0 \<le> order ?e"
    using table_entry_ok [OF assms(2) table_last(1)] by blast
  have "update_channel_filter h ch r
             = Some (0, ch\<lparr>current := Some \<lparr>rate = rate ?e, coeffs = brk h, order = order ?e\<rparr>\<rparr>,
                     fir_filter_free
                       (h\<lparr>alloc_ok := tl (tl (alloc_ok h)),
                          arrays := (arrays h)(brk h \<mapsto> take (nat (order ?e)) cs),
                          brk := Suc (brk h)\<rparr>) (current ch))"
    using None fir_filter_clone_Some [OF assms(1) cs(3) cs(1) cs(2)]
    by (simp add: update_channel_filter_def)
  then show ?thesis
    using table_scan(2) [OF None] table_last(1) cs(1) by blast
next
  case (Some e)
  have e: "e \<in> set FIR_FILTERS" "rate e = r"
    using table_scan(1) [OF Some] by simp_all
  obtain cs where cs: "arrays h (coeffs e) = Some cs" "order e \<le> int (length cs)" "0 \<le> order e"
    using table_entry_ok [OF assms(2) e(1)] by blast
  have "update_channel_filter h ch r
             = Some (0, ch\<lparr>current := Some \<lparr>rate = rate e, coeffs = brk h, order = order e\<rparr>\<rparr>,
                     fir_filter_free
                       (h\<lparr>alloc_ok := tl (tl (alloc_ok h)),
                          arrays := (arrays h)(brk h \<mapsto> take (nat (order e)) cs),
                          brk := Suc (brk h)\<rparr>) (current ch))"
    using Some fir_filter_clone_Some [OF assms(1) cs(3) cs(1) cs(2)]
    by (simp add: update_channel_filter_def)
  then show ?thesis
    using e cs(1) by blast
qed

text \<open>
  C6. When the two allocations of the clone succeed, \<open>update_channel_filter\<close> returns \<open>0\<close> and
  installs a clone of the table entry whose rate equals the requested rate; when no entry has
  that rate it installs a clone of the last entry (rate 192000, order 16383). The clone's array
  holds the first \<open>order\<close> coefficients of the entry's array.
\<close>

theorem selection_installs_clone:
  assumes "allocs_succeed 2 h" "table_ok h" "\<forall>A. current ch = Some A \<longrightarrow> coeffs A \<noteq> brk h"
  shows "\<exists>g h'. update_channel_filter h ch r = Some (0, ch\<lparr>current := Some g\<rparr>, h') \<and>
           (\<forall>e\<in>set FIR_FILTERS. rate e = r \<longrightarrow>
              rate g = r \<and> order g = order e \<and>
              arrays h' (coeffs g) = map_option (take (nat (order e))) (arrays h (coeffs e))) \<and>
           ((\<forall>e\<in>set FIR_FILTERS. rate e \<noteq> r) \<longrightarrow>
              rate g = 192000 \<and> order g = 16383 \<and>
              arrays h' (coeffs g) = map_option (take 16383) (arrays h FIR_COEFF_192000))"
proof -
  obtain e cs where e: "e \<in> set FIR_FILTERS"
      "rate e = r \<or> (\<forall>e'\<in>set FIR_FILTERS. rate e' \<noteq> r) \<and> e = FIR_FILTERS ! 5"
      "arrays h (coeffs e) = Some cs"
    and u: "update_channel_filter h ch r
             = Some (0, ch\<lparr>current := Some \<lparr>rate = rate e, coeffs = brk h, order = order e\<rparr>\<rparr>,
                     fir_filter_free
                       (h\<lparr>alloc_ok := tl (tl (alloc_ok h)),
                          arrays := (arrays h)(brk h \<mapsto> take (nat (order e)) cs),
                          brk := Suc (brk h)\<rparr>) (current ch))"
    using update_channel_filter_Some [OF assms(1,2), of r ch] by blast
  let ?g = "\<lparr>rate = rate e, coeffs = brk h, order = order e\<rparr>"
  let ?h = "fir_filter_free (h\<lparr>alloc_ok := tl (tl (alloc_ok h)),
                          arrays := (arrays h)(brk h \<mapsto> take (nat (order e)) cs),
                          brk := Suc (brk h)\<rparr>) (current ch)"
  have a: "arrays ?h (coeffs ?g) = Some (take (nat (order e)) cs)"
    using assms(3) by (cases "current ch") (simp_all add: arrays_fir_filter_free freed_def)
  have 1: "\<forall>e'\<in>set FIR_FILTERS. rate e' = r \<longrightarrow>
              rate ?g = r \<and> order ?g = order e' \<and>
              arrays ?h (coeffs ?g) = map_option (take (nat (order e'))) (arrays h (coeffs e'))"
  proof (intro ballI impI)
    fix e' assume e': "e' \<in> set FIR_FILTERS" "rate e' = r"
    then have "rate e = r" using e(2) by blast
    then have "e' = e" using table_rates_distinct [OF e'(1) e(1)] e'(2) by simp
    then show "rate ?g = r \<and> order ?g = order e' \<and>
              arrays ?h (coeffs ?g) = map_option (take (nat (order e'))) (arrays h (coeffs e'))"
      using e' a e(3) by simp
  qed
  have 2: "(\<forall>e\<in>set FIR_FILTERS. rate e \<noteq> r) \<longrightarrow>
              rate ?g = 192000 \<and> order ?g = 16383 \<and>
              arrays ?h (coeffs ?g) = map_option (take 16383) (arrays h FIR_COEFF_192000)"
  proof
    assume n: "\<forall>e\<in>set FIR_FILTERS. rate e \<noteq> r"
    then have "e = FIR_FILTERS ! 5" using e(1,2) by blast
    then show "rate ?g = 192000 \<and> order ?g = 16383 \<and>
              arrays ?h (coeffs ?g) = map_option (take 16383) (arrays h FIR_COEFF_192000)"
      using a e(3) table_last by simp
  qed
  show ?thesis using u 1 2 by blast
qed

theorem selection_installs_clone_witness:
  "\<exists>g h'. update_channel_filter
            \<lparr>arrays = (\<lambda>a. if a < 7 then Some (replicate 16383 0) else None), brk = 7, alloc_ok = []\<rparr>
            \<lparr>delay_line = None, current = Some \<lparr>rate = 44100, coeffs = 6, order = 4095\<rparr>\<rparr> 48000
          = Some (0, \<lparr>delay_line = None, current = Some g\<rparr>, h') \<and>
          rate g = 48000 \<and> order g = 4095 \<and> arrays h' (coeffs g) = Some (replicate 4095 0)"
proof -
  let ?h = "\<lparr>arrays = (\<lambda>a. if a < 7 then Some (replicate 16383 (0::real)) else None), brk = 7, alloc_ok = []\<rparr>"
  let ?ch = "\<lparr>delay_line = None, current = Some \<lparr>rate = 44100, coeffs = 6, order = 4095\<rparr>\<rparr>"
  have 1: "allocs_succeed 2 ?h" by (simp add: allocs_succeed_def)
  have 2: "table_ok ?h"
    by (simp add: table_ok_def FIR_FILTERS_def FIR_COEFF_44100_def FIR_COEFF_88200_def
        FIR_COEFF_176400_def FIR_COEFF_48000_def FIR_COEFF_96000_def FIR_COEFF_192000_def)
  have 3: "\<forall>A. current ?ch = Some A \<longrightarrow> coeffs A \<noteq> brk ?h" by simp
  have 4: "\<lparr>rate = 48000, coeffs = FIR_COEFF_48000, order = 4095\<rparr> \<in> set FIR_FILTERS"
    by (simp add: FIR_FILTERS_def)
  from selection_installs_clone [OF 1 2 3, of 48000] 4 show ?thesis
    by (fastforce simp: FIR_COEFF_48000_def)
qed

lemma table_find:
  "e \<in> set FIR_FILTERS \<Longrightarrow> rate e = r \<Longrightarrow> find (\<lambda>e. r = rate e) (take 6 FIR_FILTERS) = Some e"
  by (auto simp: FIR_FILTERS_def)

lemma table_find_None:
  "\<forall>e\<in>set FIR_FILTERS. rate e \<noteq> r \<Longrightarrow> find (\<lambda>e. r = rate e) (take 6 FIR_FILTERS) = None"
  by (auto simp: FIR_FILTERS_def)

lemma fir_filter_clone_fields:
  "fir_filter_clone h (Some e) = Some (Some g, h') \<Longrightarrow> rate g = rate e \<and> order g = order e"
  using fir_filter_clone_cases [of h e "Some g" h'] by auto

text \<open>
  C5, as the code has it. \<open>update_channel_filter\<close> returns \<open>0\<close> or \<open>-1\<close>; with \<open>-1\<close> the
  channel comes back unchanged and no array has been touched, so the previous filter stays
  valid; and a channel that had a filter never ends up without one. The result is \<open>-1\<close>
  whenever every clone attempted comes back \<open>NULL\<close>: the clone of the entry with the
  requested rate and then the clone of the last entry, or the clone of the last entry alone
  when no entry has the requested rate. When the clone of the entry with the requested rate
  comes back \<open>NULL\<close> and the clone of the last entry succeeds, the result is \<open>0\<close>: the channel
  gets the clone of the last entry (rate 192000, order 16383) and the previous filter is freed.
\<close>

theorem clone_failure_keeps_filter:
  "(\<forall>st ch' h'. update_channel_filter h ch r = Some (st, ch', h') \<longrightarrow>
       (st = 0 \<or> st = - 1) \<and>
       (st = - 1 \<longrightarrow> ch' = ch \<and> arrays h' = arrays h \<and> brk h' = brk h) \<and>
       (current ch \<noteq> None \<longrightarrow> current ch' \<noteq> None)) \<and>
   (\<forall>e h1 h2. e \<in> set FIR_FILTERS \<and> rate e = r \<and>
       fir_filter_clone h (Some e) = Some (None, h1) \<and>
       fir_filter_clone h1 (Some (FIR_FILTERS ! 5)) = Some (None, h2) \<longrightarrow>
       update_channel_filter h ch r = Some (- 1, ch, h2)) \<and>
   (\<forall>e h1 g h2. e \<in> set FIR_FILTERS \<and> rate e = r \<and>
       fir_filter_clone h (Some e) = Some (None, h1) \<and>
       fir_filter_clone h1 (Some (FIR_FILTERS ! 5)) = Some (Some g, h2) \<longrightarrow>
       update_channel_filter h ch r
         = Some (0, ch\<lparr>current := Some g\<rparr>, fir_filter_free h2 (current ch)) \<and>
       rate g = 192000 \<and> order g = 16383) \<and>
   (\<forall>h2. (\<forall>e\<in>set FIR_FILTERS. rate e \<noteq> r) \<and>
       fir_filter_clone h (Some (FIR_FILTERS ! 5)) = Some (None, h2) \<longrightarrow>
       update_channel_filter h ch r = Some (- 1, ch, h2))"
proof (intro conjI allI impI)
  fix st ch' h'
  assume u: "update_channel_filter h ch r = Some (st, ch', h')"
  from update_channel_filter_cases [OF u] show "st = 0 \<or> st = - 1" by auto
  from update_channel_filter_cases [OF u] show "current ch \<noteq> None \<Longrightarrow> current ch' \<noteq> None" by auto
  assume "st = - 1"
  with update_channel_filter_cases [OF u] show "ch' = ch" "arrays h' = arrays h" "brk h' = brk h"
    by auto
next
  fix e h1 h2
  assume a: "e \<in> set FIR_FILTERS \<and> rate e = r \<and>
       fir_filter_clone h (Some e) = Some (None, h1) \<and>
       fir_filter_clone h1 (Some (FIR_FILTERS ! 5)) = Some (None, h2)"
  then have "find (\<lambda>e. r = rate e) (take 6 FIR_FILTERS) = Some e"
    by (intro table_find) simp_all
  then show "update_channel_filter h ch r = Some (- 1, ch, h2)"
    using a by (simp add: update_channel_filter_def)
next
  fix e h1 g h2
  assume a: "e \<in> set FIR_FILTERS \<and> rate e = r \<and>
       fir_filter_clone h (Some e) = Some (None, h1) \<and>
       fir_filter_clone h1 (Some (FIR_FILTERS ! 5)) = Some (Some g, h2)"
  then have "find (\<lambda>e. r = rate e) (take 6 FIR_FILTERS) = Some e"
    by (intro table_find) simp_all
  then show "update_channel_filter h ch r
         = Some (0, ch\<lparr>current := Some g\<rparr>, fir_filter_free h2 (current ch))"
    using a by (simp add: update_channel_filter_def)
  show "rate g = 192000" "order g = 16383"
    using a fir_filter_clone_fields [of h1 "FIR_FILTERS ! 5" g h2] table_last by simp_all
next
  fix h2
  assume a: "(\<forall>e\<in>set FIR_FILTERS. rate e \<noteq> r) \<and>
       fir_filter_clone h (Some (FIR_FILTERS ! 5)) = Some (None, h2)"
  then have "find (\<lambda>e. r = rate e) (take 6 FIR_FILTERS) = None"
    by (intro table_find_None) simp
  then show "update_channel_filter h ch r = Some (- 1, ch, h2)"
    using a by (simp add: update_channel_filter_def)
qed

theorem clone_failure_keeps_filter_witness:
  "(\<exists>h'. update_channel_filter
          \<lparr>arrays = (\<lambda>a. if a < 7 then Some (replicate 16383 0) else None), brk = 7,
            alloc_ok = [False, True, False]\<rparr>
          \<lparr>delay_line = None, current = Some \<lparr>rate = 44100, coeffs = 6, order = 4095\<rparr>\<rparr> 48000
        = Some (- 1, \<lparr>delay_line = None, current = Some \<lparr>rate = 44100, coeffs = 6, order = 4095\<rparr>\<rparr>, h') \<and>
        arrays h' 6 = Some (replicate 16383 0) \<and> brk h' = 7) \<and>
   (\<exists>h'. update_channel_filter
          \<lparr>arrays = (\<lambda>a. if a < 7 then Some (replicate 16383 0) else None), brk = 7,
            alloc_ok = [True, False]\<rparr>
          \<lparr>delay_line = None, current = Some \<lparr>rate = 44100, coeffs = 6, order = 4095\<rparr>\<rparr> 48000
        = Some (0, \<lparr>delay_line = None, current = Some \<lparr>rate = 192000, coeffs = 7, order = 16383\<rparr>\<rparr>, h')) \<and>
   (\<exists>h'. update_channel_filter
          \<lparr>arrays = (\<lambda>a. if a < 7 then Some (replicate 16383 0) else None), brk = 7,
            alloc_ok = [False]\<rparr>
          \<lparr>delay_line = None, current = Some \<lparr>rate = 44100, coeffs = 6, order = 4095\<rparr>\<rparr> 22050
        = Some (- 1, \<lparr>delay_line = None, current = Some \<lparr>rate = 44100, coeffs = 6, order = 4095\<rparr>\<rparr>, h'))"
proof -
  let ?a = "\<lambda>a::nat. if a < 7 then Some (replicate 16383 (0::real)) else None"
  let ?ch = "\<lparr>delay_line = None, current = Some \<lparr>rate = 44100, coeffs = 6, order = 4095\<rparr>\<rparr>"
  let ?e = "\<lparr>rate = 48000, coeffs = FIR_COEFF_48000, order = 4095\<rparr>"
  have e: "?e \<in> set FIR_FILTERS" "rate ?e = 48000"
    by (simp_all add: FIR_FILTERS_def)
  have n: "\<forall>e\<in>set FIR_FILTERS. rate e \<noteq> 22050"
    by (simp add: FIR_FILTERS_def)
  have 1: "fir_filter_clone \<lparr>arrays = ?a, brk = 7, alloc_ok = [False, True, False]\<rparr> (Some ?e)
             = Some (None, \<lparr>arrays = ?a, brk = 7, alloc_ok = [True, False]\<rparr>)"
    by (simp add: fir_filter_clone_def malloc_def)
  have 2: "fir_filter_clone \<lparr>arrays = ?a, brk = 7, alloc_ok = [True, False]\<rparr> (Some (FIR_FILTERS ! 5))
             = Some (None, \<lparr>arrays = ?a, brk = 7, alloc_ok = []\<rparr>)"
    by (simp add: fir_filter_clone_def malloc_def)
  have 3: "fir_filter_clone \<lparr>arrays = ?a, brk = 7, alloc_ok = [True, False]\<rparr> (Some ?e)
             = Some (None, \<lparr>arrays = ?a, brk = 7, alloc_ok = []\<rparr>)"
    by (simp add: fir_filter_clone_def malloc_def)
  obtain h2 where 4: "fir_filter_clone \<lparr>arrays = ?a, brk = 7, alloc_ok = []\<rparr> (Some (FIR_FILTERS ! 5))
             = Some (Some \<lparr>rate = 192000, coeffs = 7, order = 16383\<rparr>, h2)"
    by (simp add: fir_filter_clone_def malloc_def FIR_FILTERS_def FIR_COEFF_192000_def)
  have 5: "fir_filter_clone \<lparr>arrays = ?a, brk = 7, alloc_ok = [False]\<rparr> (Some (FIR_FILTERS ! 5))
             = Some (None, \<lparr>arrays = ?a, brk = 7, alloc_ok = []\<rparr>)"
    by (simp add: fir_filter_clone_def malloc_def)
  have A: "update_channel_filter \<lparr>arrays = ?a, brk = 7, alloc_ok = [False, True, False]\<rparr> ?ch 48000
             = Some (- 1, ?ch, \<lparr>arrays = ?a, brk = 7, alloc_ok = []\<rparr>)"
    by (rule clone_failure_keeps_filter [THEN conjunct2, THEN conjunct1, rule_format, of ?e])
       (rule conjI e 1 2)+
  have A': "arrays \<lparr>arrays = ?a, brk = 7, alloc_ok = []\<rparr>
              = arrays \<lparr>arrays = ?a, brk = 7, alloc_ok = [False, True, False]\<rparr> \<and>
            brk \<lparr>arrays = ?a, brk = 7, alloc_ok = []\<rparr>
              = brk \<lparr>arrays = ?a, brk = 7, alloc_ok = [False, True, False]\<rparr>"
    using clone_failure_keeps_filter [THEN conjunct1, rule_format, OF A] by simp
  have B: "update_channel_filter \<lparr>arrays = ?a, brk = 7, alloc_ok = [True, False]\<rparr> ?ch 48000
             = Some (0, ?ch\<lparr>current := Some \<lparr>rate = 192000, coeffs = 7, order = 16383\<rparr>\<rparr>,
                     fir_filter_free h2 (current ?ch))"
    by (rule clone_failure_keeps_filter [THEN conjunct2, THEN conjunct2, THEN conjunct1, rule_format,
          of ?e _ _ _ _ _ _, THEN conjunct1])
       (rule conjI e 3 4)+
  have C: "update_channel_filter \<lparr>arrays = ?a, brk = 7, alloc_ok = [False]\<rparr> ?ch 22050
             = Some (- 1, ?ch, \<lparr>arrays = ?a, brk = 7, alloc_ok = []\<rparr>)"
    by (rule clone_failure_keeps_filter [THEN conjunct2, THEN conjunct2, THEN conjunct2, rule_format])
       (rule conjI n 5)+
  show ?thesis
    unfolding A B C using A' by simp
qed

text \<open>
  C5 as stated fails: when the first allocation fails and the later ones succeed, the clone of
  the entry for 48000 comes back \<open>NULL\<close>, yet \<open>update_channel_filter\<close> returns \<open>0\<close>, installs a
  clone of the entry for 192000 and frees the previous filter (its array at address 6).
\<close>

theorem clone_failure_counterexample:
  "map_option fst
     (fir_filter_clone
        \<lparr>arrays = [0 \<mapsto> replicate 4095 0, 1 \<mapsto> replicate 8191 0, 2 \<mapsto> replicate 16383 0,
                   3 \<mapsto> replicate 4095 0, 4 \<mapsto> replicate 8191 0, 5 \<mapsto> replicate 16383 0,
                   6 \<mapsto> replicate 4095 0],
          brk = 7, alloc_ok = [False]\<rparr>
        (Some (FIR_FILTERS ! 3))) = Some None \<and>
   rate (FIR_FILTERS ! 3) = 48000 \<and>
   map_option fst
     (update_channel_filter
        \<lparr>arrays = [0 \<mapsto> replicate 4095 0, 1 \<mapsto> replicate 8191 0, 2 \<mapsto> replicate 16383 0,
                   3 \<mapsto> replicate 4095 0, 4 \<mapsto> replicate 8191 0, 5 \<mapsto> replicate 16383 0,
                   6 \<mapsto> replicate 4095 0],
          brk = 7, alloc_ok = [False]\<rparr>
        \<lparr>delay_line = None, current = Some \<lparr>rate = 44100, coeffs = 6, order = 4095\<rparr>\<rparr> 48000) = Some 0 \<and>
   map_option (fst \<circ> snd)
     (update_channel_filter
        \<lparr>arrays = [0 \<mapsto> replicate 4095 0, 1 \<mapsto> replicate 8191 0, 2 \<mapsto> replicate 16383 0,
                   3 \<mapsto> replicate 4095 0, 4 \<mapsto> replicate 8191 0, 5 \<mapsto> replicate 16383 0,
                   6 \<mapsto> replicate 4095 0],
          brk = 7, alloc_ok = [False]\<rparr>
        \<lparr>delay_line = None, current = Some \<lparr>rate = 44100, coeffs = 6, order = 4095\<rparr>\<rparr> 48000)
     = Some \<lparr>delay_line = None, current = Some \<lparr>rate = 192000, coeffs = 7, order = 16383\<rparr>\<rparr> \<and>
   arrays (snd (snd (the
     (update_channel_filter
        \<lparr>arrays = [0 \<mapsto> replicate 4095 0, 1 \<mapsto> replicate 8191 0, 2 \<mapsto> replicate 16383 0,
                   3 \<mapsto> replicate 4095 0, 4 \<mapsto> replicate 8191 0, 5 \<mapsto> replicate 16383 0,
                   6 \<mapsto> replicate 4095 0],
          brk = 7, alloc_ok = [False]\<rparr>
        \<lparr>delay_line = None, current = Some \<lparr>rate = 44100, coeffs = 6, order = 4095\<rparr>\<rparr> 48000)))) 6 = None"
  by (simp add: update_channel_filter_def fir_filter_clone_def malloc_def FIR_FILTERS_def
      FIR_COEFF_44100_def FIR_COEFF_88200_def FIR_COEFF_176400_def FIR_COEFF_48000_def
      FIR_COEFF_96000_def FIR_COEFF_192000_def fir_filter_free_def free_def)

subsection \<open>Swapping the filter of a channel\<close>

lemma rd_take: "j < L \<Longrightarrow> rd (take L cs) (int j) = rd cs (int j)"
  by (simp add: rd_def)

lemma scalar_sum_take: "n \<le> L \<Longrightarrow> scalar_sum (take L cs) buf k n = scalar_sum cs buf k n"
  by (induction n) (simp_all add: rd_take)

lemma scalar_rows_take:
  "scalar_rows len (take (nat len) cs) buf base out n = scalar_rows len cs buf base out n"
  by (induction n) (simp_all add: scalar_sum_take)

lemma loadu_take: "p + 16 \<le> L \<Longrightarrow> loadu (take L cs) (int p) = loadu cs (int p)"
proof -
  assume a: "p + 16 \<le> L"
  have "map (\<lambda>l. rd (take L cs) (int p + int l)) [0..<16] = map (\<lambda>l. rd cs (int p + int l)) [0..<16]"
  proof (intro map_cong refl)
    fix l assume "l \<in> set [0..<16]"
    then have "p + l < L" using a by simp
    then show "rd (take L cs) (int p + int l) = rd cs (int p + int l)"
      using rd_take [of "p + l" L cs] by simp
  qed
  then show ?thesis
    unfolding loadu_def SIMD_WIDTH_AVX512_def by (simp only:)
qed

lemma avx_acc1_take: "16 * n \<le> L \<Longrightarrow> avx_acc1 (take L cs) buf k n = avx_acc1 cs buf k n"
proof (induction n)
  case 0
  then show ?case by simp
next
  case (Suc n)
  have "loadu (take L cs) (int (16 * n)) = loadu cs (int (16 * n))"
    using Suc.prems by (intro loadu_take) simp
  then show ?case using Suc by (simp add: SIMD_WIDTH_AVX512_def)
qed

lemma avx_acc4_take: "16 * n \<le> L \<Longrightarrow> avx_acc4 (take L cs) buf k n = avx_acc4 cs buf k n"
proof (induction n)
  case 0
  then show ?case by simp
next
  case (Suc n)
  have "loadu (take L cs) (int (16 * n)) = loadu cs (int (16 * n))"
    using Suc.prems by (intro loadu_take) simp
  then show ?case using Suc by (simp add: SIMD_WIDTH_AVX512_def)
qed

lemma avx_tail1_take:
  "m + n \<le> L \<Longrightarrow> avx_tail1 (take L cs) buf k (int m) s n = avx_tail1 cs buf k (int m) s n"
proof (induction n)
  case 0
  then show ?case by simp
next
  case (Suc n)
  have "rd (take L cs) (int m + int n) = rd cs (int m + int n)"
    using Suc.prems rd_take [of "m + n" L cs] by simp
  then show ?case using Suc by simp
qed

lemma avx_tail4_take:
  "m + n \<le> L \<Longrightarrow> avx_tail4 (take L cs) buf k (int m) s n = avx_tail4 cs buf k (int m) s n"
proof (induction n)
  case 0
  then show ?case by simp
next
  case (Suc n)
  have "rd (take L cs) (int m + int n) = rd cs (int m + int n)"
    using Suc.prems rd_take [of "m + n" L cs] by simp
  then show ?case using Suc by simp
qed

lemma avx_batches_take:
  "avx_batches (int L) (int (L div 16 * 16)) (take L cs) buf base out n
     = avx_batches (int L) (int (L div 16 * 16)) cs buf base out n"
proof (induction n)
  case 0
  then show ?case by simp
next
  case (Suc n)
  have a: "avx_acc4 (take L cs) buf k (L div 16) = avx_acc4 cs buf k (L div 16)" for k
    by (intro avx_acc4_take) simp
  have t: "avx_tail4 (take L cs) buf k (int (L div 16 * 16)) s (L - L div 16 * 16)
             = avx_tail4 cs buf k (int (L div 16 * 16)) s (L - L div 16 * 16)" for k s
    by (intro avx_tail4_take) simp
  have e: "nat (int (L div 16 * 16)) div 16 = L div 16" "nat (int L - int (L div 16 * 16)) = L - L div 16 * 16"
    by simp_all
  show ?case
    unfolding avx_batches.simps SIMD_WIDTH_AVX512_def e Suc a t ..
qed

lemma avx_rest_take:
  "avx_rest (int L) (int (L div 16 * 16)) vc (take L cs) buf base out n
     = avx_rest (int L) (int (L div 16 * 16)) vc cs buf base out n"
proof (induction n)
  case 0
  then show ?case by simp
next
  case (Suc n)
  have a: "avx_acc1 (take L cs) buf k (L div 16) = avx_acc1 cs buf k (L div 16)" for k
    by (intro avx_acc1_take) simp
  have t: "avx_tail1 (take L cs) buf k (int (L div 16 * 16)) s (L - L div 16 * 16)
             = avx_tail1 cs buf k (int (L div 16 * 16)) s (L - L div 16 * 16)" for k s
    by (intro avx_tail1_take) simp
  have e: "nat (int (L div 16 * 16)) div 16 = L div 16" "nat (int L - int (L div 16 * 16)) = L - L div 16 * 16"
    by simp_all
  show ?case
    unfolding avx_rest.simps SIMD_WIDTH_AVX512_def e Suc a t ..
qed

lemma apply_paths_take:
  assumes "0 \<le> len"
  shows "(if avx512f then fir_filter_apply_avx512 else fir_filter_apply_scalar)
           len (take (nat len) cs) count buf base out
         = (if avx512f then fir_filter_apply_avx512 else fir_filter_apply_scalar) len cs count buf base out"
proof -
  have l: "len = int (nat len)" using assms by simp
  have d: "c_div (int (nat len)) (int 16) * int 16 = int (nat len div 16 * 16)"
    by (simp only: c_div_int of_nat_mult)
  have "fir_filter_apply_avx512 (int (nat len)) (take (nat len) cs) count buf base out
          = fir_filter_apply_avx512 (int (nat len)) cs count buf base out"
    unfolding fir_filter_apply_avx512_def SIMD_WIDTH_AVX512_def Let_def d avx_batches_take avx_rest_take ..
  then show ?thesis
    using l by (simp add: fir_filter_apply_scalar_def scalar_rows_take)
qed

lemma append_order_only:
  "order f = order g \<Longrightarrow>
   delay_line_append_samples (Some f) dl xs n = delay_line_append_samples (Some g) dl xs n"
  by (cases dl; cases xs) (simp_all add: delay_line_append_samples_def)

lemma apply_with_copy:
  assumes "arrays h (coeffs e) = Some cs" "0 \<le> order e"
    "arrays h' (coeffs g) = Some (take (nat (order e)) cs)" "order g = order e"
  shows "fir_filter_apply avx512f h' (Some g) dl n outp = fir_filter_apply avx512f h (Some e) dl n outp"
proof (cases "dl = None \<or> outp = None \<or> n \<le> 0")
  case True
  then show ?thesis by (auto simp: fir_filter_apply_def split: option.splits)
next
  case False
  then obtain d out where "dl = Some d" "outp = Some out" "0 < n" by auto
  then show ?thesis
    using assms apply_paths_take [OF assms(2), of avx512f cs n "buffer d" _ out]
    by (simp add: fir_filter_apply_def del: if_split cong: if_cong)
qed

text \<open>\<open>update_channel_filter\<close> never touches the channel's delay line, and after a successful
  swap every call of \<open>process_channel\<close> behaves as it would with the table entry itself in place
  of the copy: the previous filter plays no part.\<close>

lemma swap_reads_table_entry:
  assumes "update_channel_filter h ch r = Some (st, ch', h')"
    "\<forall>A. current ch = Some A \<longrightarrow> coeffs A \<noteq> brk h"
  shows "delay_line ch' = delay_line ch \<and>
         (st = 0 \<longrightarrow>
            (\<exists>e\<in>set FIR_FILTERS. \<exists>B. current ch' = Some B \<and> rate B = rate e \<and> order B = order e \<and>
               (\<forall>avx512f inp outp n.
                  process_channel avx512f h' ch' inp outp n
                    = map_option (\<lambda>(c, out). (c\<lparr>current := Some B\<rparr>, out))
                        (process_channel avx512f h (ch\<lparr>current := Some e\<rparr>) inp outp n))))"
proof -
  from update_channel_filter_cases [OF assms(1)]
  show ?thesis
  proof (elim disjE conjE bexE exE)
    assume "st = - 1" "ch' = ch"
    then show ?thesis by simp
  next
    fix e cs
    assume st: "st = 0" and e: "e \<in> set FIR_FILTERS" "arrays h (coeffs e) = Some cs" "0 \<le> order e"
      and c: "ch' = ch\<lparr>current := Some \<lparr>rate = rate e, coeffs = brk h, order = order e\<rparr>\<rparr>"
      and a: "arrays h' = freed (current ch) ((arrays h)(brk h \<mapsto> take (nat (order e)) cs))"
    let ?B = "\<lparr>rate = rate e, coeffs = brk h, order = order e\<rparr>"
    have b: "arrays h' (coeffs ?B) = Some (take (nat (order e)) cs)"
      using a assms(2) by (cases "current ch") (simp_all add: freed_def)
    have ap: "fir_filter_apply avx512f h' (Some ?B) dl n outp = fir_filter_apply avx512f h (Some e) dl n outp"
      for avx512f dl n outp
      using apply_with_copy [OF e(2,3) b] by simp
    have ad: "delay_line_append_samples (Some ?B) dl xs n = delay_line_append_samples (Some e) dl xs n"
      for dl xs n
      by (intro append_order_only) simp
    have p: "process_channel avx512f h' ch' inp outp n
               = map_option (\<lambda>(c, out). (c\<lparr>current := Some ?B\<rparr>, out))
                   (process_channel avx512f h (ch\<lparr>current := Some e\<rparr>) inp outp n)"
      for avx512f inp outp n
      by (cases "delay_line_append_samples (Some e) (delay_line ch) inp n";
          cases "fir_filter_apply avx512f h (Some e)
                   (the (delay_line_append_samples (Some e) (delay_line ch) inp n)) n outp")
         (simp_all add: process_channel_def c ap ad)
    have "current ch' = Some ?B" "rate ?B = rate e" "order ?B = order e" "delay_line ch' = delay_line ch"
      using c by simp_all
    then show ?thesis using p e(1) by blast
  qed
qed

text \<open>\<open>select_filter_for_rate\<close> leaves the delay line of every channel as it was.\<close>

lemma select_channels_frame:
  "select_channels h r a cs = Some (cs', a', h') \<Longrightarrow> map delay_line cs' = map delay_line cs"
proof (induction cs arbitrary: h a cs' a' h')
  case Nil
  then show ?case by simp
next
  case (Cons c cs)
  from Cons.prems obtain st c1 h1 where u1: "update_channel_filter h c r = Some (st, c1, h1)"
    by (auto split: Option.bind_splits)
  from Cons.prems u1 obtain c2 a2 h2 where
    s2: "(if st \<noteq> 0
             then do { (st', c', h') \<leftarrow> update_channel_filter h1 c1 (rate (FIR_FILTERS ! 5));
                       Some (c', rate (FIR_FILTERS ! 5), h') }
             else Some (c1, a, h1)) = Some (c2, a2, h2)"
    by (auto split: Option.bind_splits)
  from Cons.prems u1 s2 obtain cs2 a3 h3 where
    r: "select_channels h2 r a2 cs = Some (cs2, a3, h3)" "cs' = c2 # cs2"
    by (auto split: Option.bind_splits)
  have d1: "delay_line c1 = delay_line c"
    using update_channel_filter_cases [OF u1] by auto
  have d2: "delay_line c2 = delay_line c1"
  proof (cases "st \<noteq> 0")
    case True
    then obtain st' where "update_channel_filter h1 c1 (rate (FIR_FILTERS ! 5)) = Some (st', c2, h2)"
      using s2 by (auto split: Option.bind_splits)
    from update_channel_filter_cases [OF this] show ?thesis by auto
  next
    case False
    then show ?thesis using s2 by simp
  qed
  show ?case
    using Cons.IH [OF r(1)] r(2) d1 d2 by simp
qed

lemma select_filter_for_rate_frame:
  "select_filter_for_rate h d r = Some (d', h') \<Longrightarrow>
   map delay_line (channels d') = map delay_line (channels d)"
proof -
  assume a: "select_filter_for_rate h d r = Some (d', h')"
  then obtain cs a' where s: "select_channels h r r (channels d) = Some (cs, a', h')"
      and d': "d' = d\<lparr>channels := cs, current_rate := a'\<rparr>"
    by (auto simp: select_filter_for_rate_def split: Option.bind_splits list.splits option.splits)
  show ?thesis
    using select_channels_frame [OF s] d' by simp
qed

subsection \<open>What an append writes\<close>

lemma append_loop_closed:
  assumes "length b = S" "idx < S" "2 * o' \<le> idx" "4 * o' \<le> S"
  shows "n \<le> 2 * o' \<Longrightarrow> n \<le> length xs \<Longrightarrow>
         \<exists>b'. append_loop xs (int S) (b, int idx, int idx - int o' * 2) n
                = Some (b', int (if idx + n < S then idx + n else idx + n - 2 * o'),
                            int (if idx + n < S then idx + n - 2 * o' else idx + n - S)) \<and>
              length b' = S \<and> (\<forall>p<S. b' ! p = appended S o' idx xs n b p)"
proof (induction n)
  case 0
  have "int idx - int o' * 2 = int (idx - 2 * o')"
    using assms by (simp add: of_nat_diff)
  then show ?case using assms by (simp add: appended_def)
next
  case (Suc n)
  then obtain b' where ih: "append_loop xs (int S) (b, int idx, int idx - int o' * 2) n
                = Some (b', int (if idx + n < S then idx + n else idx + n - 2 * o'),
                            int (if idx + n < S then idx + n - 2 * o' else idx + n - S))"
      and len: "length b' = S" and nth: "\<forall>p<S. b' ! p = appended S o' idx xs n b p"
    by auto
  have r: "rd xs (int n) = Some (xs ! n)"
    using Suc.prems by (intro rd_int) simp
  show ?case
  proof (cases "idx + n < S")
    case True
    let ?w = "idx + n" and ?m = "idx + n - 2 * o'"
    have w1: "wr b' (int ?w) (xs ! n) = Some (b'[?w := xs ! n])"
      using True len by (intro wr_int) simp
    have w2: "wr (b'[?w := xs ! n]) (int ?m) (xs ! n) = Some (b'[?w := xs ! n, ?m := xs ! n])"
      using True len by (intro wr_int) simp
    have c: "(int ?w + 1 = int S) = (Suc (idx + n) = S)" by auto
    have st: "append_loop xs (int S) (b, int idx, int idx - int o' * 2) (Suc n)
                = Some (b'[?w := xs ! n, ?m := xs ! n],
                        if Suc (idx + n) = S then int ?m + 1 else int ?w + 1,
                        if Suc (idx + n) = S then 0 else int ?m + 1)"
      using True by (simp add: ih r w1 w2 c del: of_nat_add)
    have e: "(if Suc (idx + n) = S then int ?m + 1 else int ?w + 1)
               = int (if idx + Suc n < S then idx + Suc n else idx + Suc n - 2 * o')"
            "(if Suc (idx + n) = S then 0 else int ?m + 1)
               = int (if idx + Suc n < S then idx + Suc n - 2 * o' else idx + Suc n - S)"
      using True assms Suc.prems by (auto simp: of_nat_diff)
    have v: "\<forall>p<S. b'[?w := xs ! n, ?m := xs ! n] ! p = appended S o' idx xs (Suc n) b p"
    proof (intro allI impI)
      fix p assume p: "p < S"
      show "b'[?w := xs ! n, ?m := xs ! n] ! p = appended S o' idx xs (Suc n) b p"
      proof (cases "p = ?m \<or> p = ?w")
        case True
        then show ?thesis
          using p len \<open>idx + n < S\<close> assms Suc.prems
          by (auto simp: nth_list_update appended_def)
      next
        case False
        then have "b'[?w := xs ! n, ?m := xs ! n] ! p = appended S o' idx xs n b p"
          using p nth by simp
        also have "\<dots> = appended S o' idx xs (Suc n) b p"
          using False p \<open>idx + n < S\<close> assms Suc.prems
          by (auto simp: appended_def)
        finally show ?thesis .
      qed
    qed
    show ?thesis
      using st e v len by simp
  next
    case False
    let ?w = "idx + n - 2 * o'" and ?m = "idx + n - S"
    have w1: "wr b' (int ?w) (xs ! n) = Some (b'[?w := xs ! n])"
      using False len assms Suc.prems by (intro wr_int) simp
    have w2: "wr (b'[?w := xs ! n]) (int ?m) (xs ! n) = Some (b'[?w := xs ! n, ?m := xs ! n])"
      using False len assms Suc.prems by (intro wr_int) simp
    have c: "int ?w + 1 \<noteq> int S"
      using False assms Suc.prems by linarith
    have st: "append_loop xs (int S) (b, int idx, int idx - int o' * 2) (Suc n)
                = Some (b'[?w := xs ! n, ?m := xs ! n], int ?w + 1, int ?m + 1)"
      using False c by (simp add: ih r w1 w2 del: of_nat_add of_nat_diff)
    have e: "int ?w + 1 = int (if idx + Suc n < S then idx + Suc n else idx + Suc n - 2 * o')"
            "int ?m + 1 = int (if idx + Suc n < S then idx + Suc n - 2 * o' else idx + Suc n - S)"
      using False assms Suc.prems by (auto simp: of_nat_diff)
    have v: "\<forall>p<S. b'[?w := xs ! n, ?m := xs ! n] ! p = appended S o' idx xs (Suc n) b p"
    proof (intro allI impI)
      fix p assume p: "p < S"
      show "b'[?w := xs ! n, ?m := xs ! n] ! p = appended S o' idx xs (Suc n) b p"
      proof (cases "p = ?m \<or> p = ?w")
        case True
        then show ?thesis
          using p len \<open>\<not> idx + n < S\<close> assms Suc.prems
          by (auto simp: nth_list_update appended_def)
      next
        case False
        then have "b'[?w := xs ! n, ?m := xs ! n] ! p = appended S o' idx xs n b p"
          using p nth by simp
        also have "\<dots> = appended S o' idx xs (Suc n) b p"
          using False p \<open>\<not> idx + n < S\<close> assms Suc.prems
          by (auto simp: appended_def)
        finally show ?thesis .
      qed
    qed
    show ?thesis
      using st e v len by simp
  qed
qed

lemma delay_line_append_samples_closed:
  assumes "length (buffer d) = size_dl d" "index d < size_dl d" "order f = int o'"
    "2 * o' \<le> index d" "4 * o' \<le> size_dl d" "0 < c" "c \<le> 2 * o'" "c \<le> length xs"
  shows "\<exists>b'. delay_line_append_samples (Some f) (Some d) (Some xs) (int c)
                = Some (Some (d\<lparr>buffer := b',
                     index := (if index d + c < size_dl d then index d + c else index d + c - 2 * o')\<rparr>)) \<and>
              length b' = size_dl d \<and>
              (\<forall>p<size_dl d. b' ! p = appended (size_dl d) o' (index d) xs c (buffer d) p)"
proof -
  obtain b' where l: "append_loop xs (int (size_dl d)) (buffer d, int (index d), int (index d) - int o' * 2) c
                = Some (b', int (if index d + c < size_dl d then index d + c else index d + c - 2 * o'),
                            int (if index d + c < size_dl d then index d + c - 2 * o'
                                 else index d + c - size_dl d))"
    and b: "length b' = size_dl d" "\<forall>p<size_dl d. b' ! p = appended (size_dl d) o' (index d) xs c (buffer d) p"
    using append_loop_closed [OF assms(1,2,4,5,7,8)] by blast
  have "delay_line_append_samples (Some f) (Some d) (Some xs) (int c)
                = Some (Some (d\<lparr>buffer := b',
                     index := (if index d + c < size_dl d then index d + c else index d + c - 2 * o')\<rparr>))"
    using assms(3,6) l by (simp add: delay_line_append_samples_def del: of_nat_add of_nat_diff)
  then show ?thesis using b by blast
qed

subsection \<open>The cursor stays in range\<close>

lemma append_loop_in_bounds:
  assumes "length b = S" "0 \<le> m" "m < w" "w < int S"
  shows "n \<le> length xs \<Longrightarrow>
         \<exists>b' w' m'. append_loop xs (int S) (b, w, m) n = Some (b', w', m') \<and>
            length b' = S \<and> 0 \<le> m' \<and> m' < w' \<and> w' < int S"
proof (induction n)
  case 0
  then show ?case using assms by simp
next
  case (Suc n)
  then obtain b' w' m' where ih: "append_loop xs (int S) (b, w, m) n = Some (b', w', m')"
      "length b' = S" "0 \<le> m'" "m' < w'" "w' < int S"
    by auto
  have r: "rd xs (int n) = Some (xs ! n)"
    using Suc.prems by (intro rd_int) simp
  have w1: "wr b' w' (xs ! n) = Some (b'[nat w' := xs ! n])"
    using ih by (simp add: wr_def)
  have w2: "wr (b'[nat w' := xs ! n]) m' (xs ! n) = Some (b'[nat w' := xs ! n, nat m' := xs ! n])"
    using ih by (simp add: wr_def)
  show ?case
    using ih by (auto simp: r w1 w2)
qed

lemma single_append_in_bounds:
  assumes "length (buffer d) = size_dl d" "index d < size_dl d" "1 \<le> order f"
    "2 * order f \<le> int (index d)" "0 < c" "c \<le> int (length xs)"
  shows "\<exists>d'. delay_line_append_samples (Some f) (Some d) (Some xs) c = Some (Some d') \<and>
           size_dl d' = size_dl d \<and> length (buffer d') = size_dl d \<and> index d' < size_dl d"
proof -
  have "nat c \<le> length xs" using assms by linarith
  from append_loop_in_bounds [OF assms(1) _ _ _ this, of "int (index d) - order f * 2" "int (index d)"]
  obtain b' w' m' where l: "append_loop xs (int (size_dl d))
        (buffer d, int (index d), int (index d) - order f * 2) (nat c) = Some (b', w', m')"
      "length b' = size_dl d" "0 \<le> m'" "m' < w'" "w' < int (size_dl d)"
    using assms by auto
  then show ?thesis
    using assms by (auto simp: delay_line_append_samples_def)
qed

lemma append_calls_in_range:
  assumes "4 * Omax \<le> size_dl d"
  shows "length (buffer d) = size_dl d \<Longrightarrow> size_dl d - 2 * Omax \<le> index d \<Longrightarrow> index d < size_dl d \<Longrightarrow>
         \<forall>(f, xs)\<in>set calls. 0 \<le> order f \<and> order f \<le> int Omax \<and> int (length xs) \<le> 2 * order f \<Longrightarrow>
         \<exists>d'. append_calls d calls = Some d' \<and> size_dl d' = size_dl d \<and>
              length (buffer d') = size_dl d \<and>
              size_dl d - 2 * Omax \<le> index d' \<and> index d' < size_dl d"
  using assms
proof (induction calls arbitrary: d)
  case Nil
  then show ?case by simp
next
  case (Cons call calls)
  obtain f xs where call: "call = (f, xs)" by (cases call)
  have f: "0 \<le> order f" "order f \<le> int Omax" "int (length xs) \<le> 2 * order f"
    using Cons.prems(4) call by auto
  have "\<exists>d1. delay_line_append_samples (Some f) (Some d) (Some xs) (int (length xs)) = Some (Some d1) \<and>
          size_dl d1 = size_dl d \<and> length (buffer d1) = size_dl d \<and>
          size_dl d - 2 * Omax \<le> index d1 \<and> index d1 < size_dl d"
  proof (cases "length xs = 0")
    case True
    then show ?thesis
      using Cons.prems by (simp add: delay_line_append_samples_def)
  next
    case False
    obtain o' where o: "order f = int o'" using f(1) nonneg_int_cases by blast
    have c: "length (buffer d) = size_dl d" "index d < size_dl d" "2 * o' \<le> index d"
      "4 * o' \<le> size_dl d" "0 < length xs" "length xs \<le> 2 * o'" "length xs \<le> length xs"
      using Cons.prems f o False by auto
    obtain b' where "delay_line_append_samples (Some f) (Some d) (Some xs) (int (length xs))
                = Some (Some (d\<lparr>buffer := b',
                     index := (if index d + length xs < size_dl d then index d + length xs
                               else index d + length xs - 2 * o')\<rparr>))" "length b' = size_dl d"
      using delay_line_append_samples_closed [OF c(1,2) o c(3-7)] by blast
    then show ?thesis
      using Cons.prems f o c by auto
  qed
  then obtain d1 where d1: "delay_line_append_samples (Some f) (Some d) (Some xs) (int (length xs)) = Some (Some d1)"
      "size_dl d1 = size_dl d" "length (buffer d1) = size_dl d"
      "size_dl d - 2 * Omax \<le> index d1" "index d1 < size_dl d"
    by blast
  have "\<exists>d'. append_calls d1 calls = Some d' \<and> size_dl d' = size_dl d1 \<and>
              length (buffer d') = size_dl d1 \<and>
              size_dl d1 - 2 * Omax \<le> index d' \<and> index d' < size_dl d1"
    using d1 Cons.prems by (intro Cons.IH) auto
  then show ?case
    using d1 call by auto
qed

text \<open>
  C10, as the code has it. Let the delay line have a size of at least \<open>4 * Omax\<close> and its index in
  \<open>[size - 2 * Omax, size)\<close>, as \<open>delay_line_init\<close> leaves it. Then a call with an order
  between 1 and \<open>Omax\<close> and any positive count writes only inside the buffer. Any sequence of
  appends, each with an order between 0 and \<open>Omax\<close> and a block of at most \<open>2 * order\<close>
  samples, moreover leaves the index in \<open>[size - 2 * Omax, size)\<close>, whatever the orders of the
  successive calls are.
\<close>

theorem append_stays_in_buffer:
  assumes "4 * Omax \<le> size_dl d" "length (buffer d) = size_dl d"
    "size_dl d - 2 * Omax \<le> index d" "index d < size_dl d"
  shows "(\<forall>(f::fir_filter) xs c. 1 \<le> order f \<and> order f \<le> int Omax \<and> 0 < c \<and> c \<le> int (length xs) \<longrightarrow>
            (\<exists>d'. delay_line_append_samples (Some f) (Some d) (Some xs) c = Some (Some d') \<and>
                  size_dl d' = size_dl d \<and> length (buffer d') = size_dl d \<and> index d' < size_dl d)) \<and>
         ((\<forall>(f, xs)\<in>set calls. 0 \<le> order f \<and> order f \<le> int Omax \<and> int (length xs) \<le> 2 * order f) \<longrightarrow>
            (\<exists>d'. append_calls d calls = Some d' \<and> size_dl d' = size_dl d \<and>
                  length (buffer d') = size_dl d \<and>
                  size_dl d - 2 * Omax \<le> index d' \<and> index d' < size_dl d))"
proof (intro conjI allI impI)
  fix f :: fir_filter and xs :: "real list" and c :: int
  assume a: "1 \<le> order f \<and> order f \<le> int Omax \<and> 0 < c \<and> c \<le> int (length xs)"
  then have "2 * order f \<le> int (index d)"
    using assms by linarith
  then show "\<exists>d'. delay_line_append_samples (Some f) (Some d) (Some xs) c = Some (Some d') \<and>
                  size_dl d' = size_dl d \<and> length (buffer d') = size_dl d \<and> index d' < size_dl d"
    using a assms by (intro single_append_in_bounds) simp_all
next
  assume "\<forall>(f, xs)\<in>set calls. 0 \<le> order f \<and> order f \<le> int Omax \<and> int (length xs) \<le> 2 * order f"
  then show "\<exists>d'. append_calls d calls = Some d' \<and> size_dl d' = size_dl d \<and>
                  length (buffer d') = size_dl d \<and>
                  size_dl d - 2 * Omax \<le> index d' \<and> index d' < size_dl d"
    using assms by (intro append_calls_in_range) simp_all
qed

theorem append_stays_in_buffer_witness:
  "(\<exists>d'. delay_line_append_samples (Some \<lparr>rate = 44100, coeffs = 0, order = 4095\<rparr>)
            (Some \<lparr>buffer = replicate 65532 0, size_dl = 65532, index = 65531\<rparr>)
            (Some (replicate 20000 0)) 20000 = Some (Some d') \<and>
         size_dl d' = 65532 \<and> length (buffer d') = 65532 \<and> index d' < 65532) \<and>
   (\<exists>d'. append_calls \<lparr>buffer = replicate 65532 0, size_dl = 65532, index = 65531\<rparr>
            [(\<lparr>rate = 44100, coeffs = 0, order = 4095\<rparr>, replicate 1024 0),
             (\<lparr>rate = 192000, coeffs = 5, order = 16383\<rparr>, replicate 8192 0),
             (\<lparr>rate = 96000, coeffs = 4, order = 8191\<rparr>, replicate 8192 0)] = Some d' \<and>
         size_dl d' = 65532 \<and> length (buffer d') = 65532 \<and>
         65532 - 2 * 16383 \<le> index d' \<and> index d' < 65532)"
proof -
  let ?d = "\<lparr>buffer = replicate 65532 (0::real), size_dl = 65532, index = 65531\<rparr>"
  let ?calls = "[(\<lparr>rate = 44100, coeffs = 0, order = 4095\<rparr>, replicate 1024 (0::real)),
             (\<lparr>rate = 192000, coeffs = 5, order = 16383\<rparr>, replicate 8192 0),
             (\<lparr>rate = 96000, coeffs = 4, order = 8191\<rparr>, replicate 8192 0)]"
  have h: "4 * 16383 \<le> size_dl ?d" "length (buffer ?d) = size_dl ?d"
    "size_dl ?d - 2 * 16383 \<le> index ?d" "index ?d < size_dl ?d"
    by simp_all
  have c: "\<forall>(f, xs)\<in>set ?calls. 0 \<le> order f \<and> order f \<le> int 16383 \<and> int (length xs) \<le> 2 * order f"
    by simp
  have s: "1 \<le> order \<lparr>rate = 44100, coeffs = 0, order = 4095\<rparr> \<and>
           order \<lparr>rate = 44100, coeffs = 0, order = 4095\<rparr> \<le> int 16383 \<and> (0::int) < 20000 \<and>
           20000 \<le> int (length (replicate 20000 (0::real)))"
    by simp
  let ?f = "\<lparr>rate = 44100, coeffs = 0, order = 4095\<rparr>"
  from append_stays_in_buffer [OF h, of ?calls] s
  have 1: "\<exists>d'. delay_line_append_samples (Some ?f) (Some ?d) (Some (replicate 20000 0)) 20000 = Some (Some d') \<and>
                  size_dl d' = size_dl ?d \<and> length (buffer d') = size_dl ?d \<and> index d' < size_dl ?d"
    by blast
  from append_stays_in_buffer [OF h, of ?calls] c
  have 2: "\<exists>d'. append_calls ?d ?calls = Some d' \<and> size_dl d' = size_dl ?d \<and>
                  length (buffer d') = size_dl ?d \<and>
                  size_dl ?d - 2 * 16383 \<le> index d' \<and> index d' < size_dl ?d"
    by blast
  from 1 2 show ?thesis by simp
qed

text \<open>
  C10 as stated fails: on a fresh line of size 8 (\<open>Omax = 2\<close>), appending three samples with
  order 1 leaves the index at 2, outside \<open>[size - 2 * order, size)\<close> and outside
  \<open>[size - 2 * Omax, size)\<close>; the next append with order 2 writes below the buffer.
\<close>

theorem append_index_counterexample:
  "delay_line_append_samples (Some \<lparr>rate = 48000, coeffs = 0, order = 1\<rparr>)
     (Some \<lparr>buffer = replicate 8 0, size_dl = 8, index = 7\<rparr>) (Some [1, 2, 3]) 3
     = Some (Some \<lparr>buffer = [2, 3, 0, 0, 0, 1, 2, 3], size_dl = 8, index = 2\<rparr>) \<and>
   delay_line_append_samples (Some \<lparr>rate = 48000, coeffs = 0, order = 2\<rparr>)
     (Some \<lparr>buffer = [2, 3, 0, 0, 0, 1, 2, 3], size_dl = 8, index = 2\<rparr>) (Some [4]) 1 = None"
  by code_simp

subsection \<open>The window against an unbounded reference buffer\<close>

lemma past_append:
  "past (hist @ xs) i = (if i < length xs then xs ! (length xs - 1 - i) else past hist (i - length xs))"
  by (auto simp: past_def nth_append)

lemma line_inv_step:
  assumes inv: "line_inv S o' k hist d"
    and f: "order f = int o'" "1 \<le> o'" "4 * o' \<le> S"
    and c: "1 \<le> length xs" "length xs \<le> cmax" "k + cmax \<le> o'" "S = 4 * o' \<or> 2 * cmax \<le> o' + 1"
  shows "\<exists>d' k'. delay_line_append_samples (Some f) (Some d) (Some xs) (int (length xs)) = Some (Some d') \<and>
           line_inv S o' k' (hist @ xs) d' \<and> k' + cmax \<le> o' \<and>
           o' + length xs \<le> index d' \<and>
           (\<forall>i<o' + length xs. buffer d' ! (index d' - 1 - i) = past (hist @ xs) i)"
proof -
  let ?c = "length xs" and ?idx = "index d" and ?b = "buffer d"
  have d: "length ?b = S" "size_dl d = S" "S - 2 * o' + k \<le> ?idx" "?idx < S"
    and I1: "\<And>i. i < o' \<Longrightarrow> ?b ! (?idx - 1 - i) = past hist i"
    and I2: "\<And>p. S - 2 * o' + k \<le> p \<Longrightarrow> p < ?idx \<Longrightarrow> ?b ! (p - 2 * o') = ?b ! p"
    using inv by (simp_all add: line_inv_def)
  have co: "?c \<le> o'" "k + ?c \<le> o'" using c by simp_all
  have pre: "length ?b = size_dl d" "?idx < size_dl d" "2 * o' \<le> ?idx" "4 * o' \<le> size_dl d"
    "0 < ?c" "?c \<le> 2 * o'" "?c \<le> length xs"
    using d f c co by auto
  let ?idx' = "if ?idx + ?c < S then ?idx + ?c else ?idx + ?c - 2 * o'"
  obtain b' where ap: "delay_line_append_samples (Some f) (Some d) (Some xs) (int ?c)
                = Some (Some (d\<lparr>buffer := b', index := ?idx'\<rparr>))"
    and lb: "length b' = S"
    and nb: "\<And>p. p < S \<Longrightarrow> b' ! p = appended S o' ?idx xs ?c ?b p"
    using delay_line_append_samples_closed [OF pre(1,2) f(1) pre(3-7)] d(2) by auto
  let ?d' = "d\<lparr>buffer := b', index := ?idx'\<rparr>"
  show ?thesis
  proof (cases "?idx + ?c < S")
    case True
    text \<open>No wrap: the block lands at the cursor, its copy \<open>2 * o'\<close> below.\<close>
    have new: "b' ! p = xs ! (p - ?idx)" if "?idx \<le> p" "p < ?idx + ?c" for p
      using that nb [of p] True co f by (auto simp: appended_def)
    have copy: "b' ! (p - 2 * o') = xs ! (p - ?idx)" if "?idx \<le> p" "p < ?idx + ?c" for p
      using that nb [of "p - 2 * o'"] True co f d by (auto simp: appended_def)
    have old: "b' ! p = ?b ! p" if "?idx + ?c \<le> p + 2 * o'" "p < ?idx" for p
      using that nb [of p] True co f d by (auto simp: appended_def)
    have oldc: "b' ! (p - 2 * o') = ?b ! (p - 2 * o')" if "S - 2 * o' \<le> p" "p < ?idx" for p
      using that nb [of "p - 2 * o'"] True co f d by (auto simp: appended_def)
    have win: "b' ! (?idx + ?c - 1 - i) = past (hist @ xs) i" if "i < o' + ?c" for i
    proof (cases "i < ?c")
      case True
      then show ?thesis
        using new [of "?idx + ?c - 1 - i"] by (simp add: past_append)
    next
      case False
      then have e: "?idx + ?c - 1 - i = ?idx - 1 - (i - ?c)" by simp
      have "?idx + ?c \<le> ?idx - 1 - (i - ?c) + 2 * o'" "?idx - 1 - (i - ?c) < ?idx"
        using False that d co f by linarith+
      then have "b' ! (?idx - 1 - (i - ?c)) = ?b ! (?idx - 1 - (i - ?c))"
        by (rule old)
      also have "\<dots> = past hist (i - ?c)"
        using False that by (intro I1) simp
      finally show ?thesis
        using False e by (simp add: past_append)
    qed
    have i2: "b' ! (p - 2 * o') = b' ! p" if "S - 2 * o' + k \<le> p" "p < ?idx + ?c" for p
    proof (cases "p < ?idx")
      case True
      have q: "?idx + ?c \<le> p + 2 * o'" "S - 2 * o' \<le> p"
        using that \<open>?idx + ?c < S\<close> f by linarith+
      show ?thesis
        using old [OF q(1) True] oldc [OF q(2) True] I2 [OF that(1) True] by simp
    next
      case False
      then show ?thesis
        using that new [of p] copy [of p] by simp
    qed
    have "line_inv S o' k (hist @ xs) ?d'"
      using True d lb win i2 by (simp add: line_inv_def)
    moreover have "o' + ?c \<le> index ?d'"
      using True d f by simp
    moreover have "\<forall>i<o' + ?c. buffer ?d' ! (index ?d' - 1 - i) = past (hist @ xs) i"
      using True win by simp
    ultimately show ?thesis
      using ap c(3) by blast
  next
    case False
    text \<open>Wrap: the cursor moves to the end of the copy, \<open>2 * o'\<close> below the end of the block.\<close>
    let ?t = "?idx + ?c - S"
    have t: "?t < ?c" using d c(1) by linarith
    have copy: "b' ! p = xs ! (p + 2 * o' - ?idx)" if "?idx \<le> p + 2 * o'" "p + 2 * o' < ?idx + ?c" for p
      using that nb [of p] d co f c(1) False by (auto simp: appended_def)
    have old: "b' ! p = ?b ! p" if "?t \<le> p" "p + 2 * o' < ?idx" for p
      using that nb [of p] d co f c(1) False by (auto simp: appended_def)
    have low: "b' ! p = xs ! (p + S - ?idx)" if "p < ?t" for p
      using that nb [of p] d co f c(1) False by (auto simp: appended_def)
    have win: "b' ! (?idx + ?c - 2 * o' - 1 - i) = past (hist @ xs) i" if "i < o' + ?c" for i
    proof (cases "i < ?c")
      case True
      have "b' ! (?idx + ?c - 2 * o' - 1 - i) = xs ! (?idx + ?c - 2 * o' - 1 - i + 2 * o' - ?idx)"
        using True d f co by (intro copy) linarith+
      also have "?idx + ?c - 2 * o' - 1 - i + 2 * o' - ?idx = ?c - 1 - i"
        using True d f co by linarith
      finally show ?thesis
        using True by (simp add: past_append)
    next
      case False
      let ?j = "i - ?c"
      have j: "?j < o'" using False that by simp
      have e: "?idx + ?c - 2 * o' - 1 - i = ?idx - 1 - ?j - 2 * o'"
        using False d f co by linarith
      have "b' ! (?idx - 1 - ?j - 2 * o') = ?b ! (?idx - 1 - ?j - 2 * o')"
        using \<open>\<not> ?idx + ?c < S\<close> j d f co by (intro old) linarith+
      also have "\<dots> = ?b ! (?idx - 1 - ?j)"
        using \<open>\<not> ?idx + ?c < S\<close> j d f co by (intro I2) linarith+
      also have "\<dots> = past hist ?j"
        using j by (rule I1)
      finally show ?thesis
        using False e by (simp add: past_append)
    qed
    let ?k' = "if S = 4 * o' then 0 else ?t"
    have i2: "b' ! (p - 2 * o') = b' ! p" if "S - 2 * o' + ?k' \<le> p" "p < ?idx + ?c - 2 * o'" for p
    proof (cases "S = 4 * o'")
      case True
      have "b' ! p = xs ! (p + 2 * o' - ?idx)"
        using that True d f co by (intro copy) linarith+
      moreover have "b' ! (p - 2 * o') = xs ! (p - 2 * o' + S - ?idx)"
        using that True d f co by (intro low) linarith
      moreover have "p - 2 * o' + S - ?idx = p + 2 * o' - ?idx"
        using that True d f co by linarith
      ultimately show ?thesis by simp
    next
      case False
      then show ?thesis using that d by simp
    qed
    have k': "?k' + cmax \<le> o'"
      using c t by auto
    have "line_inv S o' ?k' (hist @ xs) ?d'"
      unfolding line_inv_def
    proof (intro conjI allI impI)
      show "length (buffer ?d') = S" using lb by simp
      show "size_dl ?d' = S" using d by simp
      show "S - 2 * o' + ?k' \<le> index ?d'" using False d f co by auto
      show "index ?d' < S" using False d f co by auto
      show "buffer ?d' ! (index ?d' - 1 - i) = past (hist @ xs) i" if "i < o'" for i
        using False that win [of i] by simp
      show "buffer ?d' ! (p - 2 * o') = buffer ?d' ! p"
        if "S - 2 * o' + ?k' \<le> p \<and> p < index ?d'" for p
        using False that i2 [of p] by simp
    qed
    moreover have "o' + ?c \<le> index ?d'"
      using False d f co by auto
    moreover have "\<forall>i<o' + ?c. buffer ?d' ! (index ?d' - 1 - i) = past (hist @ xs) i"
      using False win by simp
    ultimately show ?thesis
      using ap k' by blast
  qed
qed

lemma reference_window_nth:
  "j < n \<Longrightarrow> reference_window n hist ! j = past hist (n - 1 - j)"
proof -
  assume j: "j < n"
  have n: "reference_window n hist ! j = (replicate n 0 @ hist) ! (length hist + j)"
    unfolding reference_window_def by (rule nth_drop) simp
  show ?thesis
  proof (cases "length hist + j < n")
    case True
    then have "(replicate n 0 @ hist) ! (length hist + j) = (0::real)"
      by (simp add: nth_append)
    moreover have "\<not> n - 1 - j < length hist"
      using True by linarith
    ultimately show ?thesis
      using n by (simp add: past_def)
  next
    case False
    have e: "length hist - 1 - (n - 1 - j) = length hist + j - n" "n - 1 - j < length hist"
      using False j by linarith+
    have "(replicate n 0 @ hist) ! (length hist + j) = hist ! (length hist + j - n)"
      using False by (simp add: nth_append)
    then show ?thesis
      using n e by (simp add: past_def)
  qed
qed

lemma window_is_reference:
  assumes "order f = int o'" "o' + c \<le> index d" "index d \<le> length (buffer d)"
    "\<forall>i<o' + c. buffer d ! (index d - 1 - i) = past hist i"
  shows "apply_window f d c = reference_window (o' + c) hist"
proof (intro nth_equalityI)
  show l: "length (apply_window f d c) = length (reference_window (o' + c) hist)"
    using assms by (simp add: apply_window_def reference_window_def)
  fix j assume "j < length (apply_window f d c)"
  then have j: "j < o' + c" using assms by (simp add: apply_window_def)
  have "apply_window f d c ! j = buffer d ! (index d - o' - c + j)"
    using assms j by (simp add: apply_window_def)
  also have "index d - o' - c + j = index d - 1 - (o' + c - 1 - j)"
    using assms j by linarith
  also have "buffer d ! \<dots> = past hist (o' + c - 1 - j)"
  proof -
    have "o' + c - 1 - j < o' + c" using j by linarith
    with assms(4) show ?thesis by blast
  qed
  finally show "apply_window f d c ! j = reference_window (o' + c) hist ! j"
    using j by (simp add: reference_window_nth)
qed

lemma line_inv_calls:
  assumes f: "order f = int o'" "1 \<le> o'" "4 * o' \<le> S" and m: "S = 4 * o' \<or> 2 * cmax \<le> o' + 1"
  shows "line_inv S o' k hist d \<Longrightarrow> k + cmax \<le> o' \<Longrightarrow>
         \<forall>xs\<in>set xss. 1 \<le> length xs \<and> length xs \<le> cmax \<Longrightarrow> xss \<noteq> [] \<Longrightarrow>
         \<exists>d'. append_calls d (map (Pair f) xss) = Some d' \<and>
              o' + length (last xss) \<le> index d' \<and> index d' \<le> length (buffer d') \<and>
              (\<forall>i<o' + length (last xss). buffer d' ! (index d' - 1 - i) = past (hist @ concat xss) i)"
proof (induction xss arbitrary: d k hist)
  case Nil
  then show ?case by simp
next
  case (Cons xs xss)
  have c: "1 \<le> length xs" "length xs \<le> cmax"
    using Cons.prems(3) by simp_all
  obtain d1 k1 where s: "delay_line_append_samples (Some f) (Some d) (Some xs) (int (length xs)) = Some (Some d1)"
      "line_inv S o' k1 (hist @ xs) d1" "k1 + cmax \<le> o'" "o' + length xs \<le> index d1"
      "\<forall>i<o' + length xs. buffer d1 ! (index d1 - 1 - i) = past (hist @ xs) i"
    using line_inv_step [OF Cons.prems(1) f c Cons.prems(2) m] by blast
  show ?case
  proof (cases "xss = []")
    case True
    have "index d1 \<le> length (buffer d1)"
      using s(2) by (simp add: line_inv_def)
    then show ?thesis
      using True s by simp
  next
    case False
    have "\<exists>d'. append_calls d1 (map (Pair f) xss) = Some d' \<and>
              o' + length (last xss) \<le> index d' \<and> index d' \<le> length (buffer d') \<and>
              (\<forall>i<o' + length (last xss). buffer d' ! (index d' - 1 - i) = past ((hist @ xs) @ concat xss) i)"
      using Cons.prems(3) False by (intro Cons.IH [OF s(2,3)]) simp_all
    then show ?thesis
      using False s(1) by simp
  qed
qed

lemma fresh_line_inv:
  assumes "1 \<le> o'" "4 * o' \<le> S"
  shows "line_inv S o' 0 [] \<lparr>buffer = replicate S 0, size_dl = S, index = S - 1\<rparr>"
  using assms by (auto simp: line_inv_def past_def)

text \<open>
  Where the window is right. Start from a fresh delay line of size \<open>S\<close> and append blocks with
  a fixed order \<open>o' \<ge> 1\<close>, each block of 1 to \<open>cmax\<close> samples, where either \<open>S = 4 * o'\<close> and
  \<open>cmax \<le> o'\<close>, or \<open>S \<ge> 4 * o'\<close> and \<open>2 * cmax \<le> o' + 1\<close>. Then no append leaves the buffer,
  and after the last block the slice of \<open>o' + count\<close> samples below the cursor equals the last
  \<open>o' + count\<close> samples of the zero-prefilled unbounded reference, wrapped or not.
\<close>

lemma window_matches_reference:
  assumes "order f = int o'" "1 \<le> o'" "4 * o' \<le> S"
    "xss \<noteq> []" "\<forall>xs\<in>set xss. 1 \<le> length xs \<and> length xs \<le> cmax"
    "S = 4 * o' \<and> cmax \<le> o' \<or> 2 * cmax \<le> o' + 1"
  shows "\<exists>d. append_calls \<lparr>buffer = replicate S 0, size_dl = S, index = S - 1\<rparr> (map (Pair f) xss) = Some d \<and>
           apply_window f d (length (last xss)) = reference_window (o' + length (last xss)) (concat xss)"
proof -
  have k: "0 + cmax \<le> o'" and m: "S = 4 * o' \<or> 2 * cmax \<le> o' + 1"
    using assms(2,6) by auto
  obtain d where d: "append_calls \<lparr>buffer = replicate S 0, size_dl = S, index = S - 1\<rparr> (map (Pair f) xss) = Some d"
      "o' + length (last xss) \<le> index d" "index d \<le> length (buffer d)"
      "\<forall>i<o' + length (last xss). buffer d ! (index d - 1 - i) = past ([] @ concat xss) i"
    using line_inv_calls [OF assms(1-3) m fresh_line_inv [OF assms(2,3)] k assms(5,4)] by blast
  have "apply_window f d (length (last xss)) = reference_window (o' + length (last xss)) (concat xss)"
    using d by (intro window_is_reference [OF assms(1)]) simp_all
  then show ?thesis using d(1) by blast
qed

lemma window_matches_reference_example:
  "\<exists>d. append_calls \<lparr>buffer = replicate 12 0, size_dl = 12, index = 12 - 1\<rparr>
          (map (Pair \<lparr>rate = 48000, coeffs = 0, order = 3\<rparr>) [[1, 2], [3], [4, 5], [6, 7], [8], [9, 10]]) = Some d \<and>
       apply_window \<lparr>rate = 48000, coeffs = 0, order = 3\<rparr> d (length (last [[1, 2], [3], [4, 5], [6, 7], [8], [9, 10 :: real]]))
         = reference_window (3 + length (last [[1, 2], [3], [4, 5], [6, 7], [8], [9, 10 :: real]]))
             (concat [[1, 2], [3], [4, 5], [6, 7], [8], [9, 10]])"
  using window_matches_reference [of "\<lparr>rate = 48000, coeffs = 0, order = 3\<rparr>" 3 12
          "[[1, 2], [3], [4, 5], [6, 7], [8], [9, 10]]" 2]
  by simp

text \<open>
  C3 fails on the code. Every call of \<open>delay_line_append_samples\<close> starts \<open>buffer_mirror\<close> at
  \<open>buffer_write - 2 * order\<close>, but after a wrap the loop restarts it at the start of the buffer;
  the two agree only when the size is \<open>4 * order\<close>. With size 12, order 2 and the blocks
  \<open>[11, 12], [13], [14, 15]\<close> the sample 12, written after the wrap of the first call, is
  mirrored to offset 0 instead of offset 4, where the third call's window looks: the slice read
  is \<open>[0, 13, 14, 15]\<close>, the reference holds \<open>[12, 13, 14, 15]\<close>.
\<close>

theorem window_counterexample:
  "append_calls \<lparr>buffer = replicate 12 0, size_dl = 12, index = 11\<rparr>
     (map (Pair \<lparr>rate = 48000, coeffs = 0, order = 2\<rparr>) [[11, 12], [13], [14, 15]])
     = Some \<lparr>buffer = [12, 0, 0, 0, 0, 13, 14, 15, 12, 13, 14, 15], size_dl = 12, index = 8\<rparr> \<and>
   apply_window \<lparr>rate = 48000, coeffs = 0, order = 2\<rparr>
     \<lparr>buffer = [12, 0, 0, 0, 0, 13, 14, 15, 12, 13, 14, 15], size_dl = 12, index = 8\<rparr> 2 = [0, 13, 14, 15] \<and>
   reference_window (2 + 2) (concat [[11, 12], [13], [14, 15]]) = [12, 13, 14, 15]"
  by code_simp

text \<open>The same on the line that \<open>main.c\<close> allocates (size \<open>4 * MAX_FILTER_ORDER = 65532\<close>)
  with order 4095 and three blocks of 3000 samples, each sample 1: the last 1095 samples of the
  first block, written after the wrap, were mirrored to the start of the buffer and not to where
  the window of the third block begins. Its first sample is 0; the reference has 1.\<close>

lemma window_deployed_example:
  "append_calls \<lparr>buffer = replicate 65532 0, size_dl = 65532, index = 65531\<rparr>
     (map (Pair \<lparr>rate = 48000, coeffs = 0, order = 4095\<rparr>)
        [replicate 3000 1, replicate 3000 1, replicate 3000 1]) \<noteq> None \<and>
   apply_window \<lparr>rate = 48000, coeffs = 0, order = 4095\<rparr>
     (the (append_calls \<lparr>buffer = replicate 65532 0, size_dl = 65532, index = 65531\<rparr>
        (map (Pair \<lparr>rate = 48000, coeffs = 0, order = 4095\<rparr>)
           [replicate 3000 1, replicate 3000 1, replicate 3000 1]))) 3000 ! 0 = 0 \<and>
   reference_window (4095 + 3000) (concat [replicate 3000 1, replicate 3000 1, replicate 3000 1]) ! 0 = 1"
proof -
  let ?f = "\<lparr>rate = 48000, coeffs = 0, order = 4095\<rparr>"
  let ?xs = "replicate 3000 (1::real)"
  let ?d0 = "\<lparr>buffer = replicate 65532 (0::real), size_dl = 65532, index = 65531\<rparr>"
  have f: "order ?f = int 4095" by simp
  obtain b1 where a1: "delay_line_append_samples (Some ?f) (Some ?d0) (Some ?xs) (int 3000)
                = Some (Some (?d0\<lparr>buffer := b1,
                     index := (if index ?d0 + 3000 < size_dl ?d0 then index ?d0 + 3000
                               else index ?d0 + 3000 - 2 * 4095)\<rparr>))"
      and l1: "length b1 = size_dl ?d0"
      and v1: "\<forall>p<size_dl ?d0. b1 ! p = appended (size_dl ?d0) 4095 (index ?d0) ?xs 3000 (buffer ?d0) p"
    using delay_line_append_samples_closed [OF _ _ f, of ?d0 3000 ?xs] by auto
  let ?d1 = "\<lparr>buffer = b1, size_dl = 65532, index = 60341\<rparr>"
  have a1': "delay_line_append_samples (Some ?f) (Some ?d0) (Some ?xs) (int (length ?xs)) = Some (Some ?d1)"
    using a1 by simp
  obtain b2 where a2: "delay_line_append_samples (Some ?f) (Some ?d1) (Some ?xs) (int 3000)
                = Some (Some (?d1\<lparr>buffer := b2,
                     index := (if index ?d1 + 3000 < size_dl ?d1 then index ?d1 + 3000
                               else index ?d1 + 3000 - 2 * 4095)\<rparr>))"
      and l2: "length b2 = size_dl ?d1"
      and v2: "\<forall>p<size_dl ?d1. b2 ! p = appended (size_dl ?d1) 4095 (index ?d1) ?xs 3000 (buffer ?d1) p"
    using delay_line_append_samples_closed [OF _ _ f, of ?d1 3000 ?xs] l1 by auto
  let ?d2 = "\<lparr>buffer = b2, size_dl = 65532, index = 63341\<rparr>"
  have a2': "delay_line_append_samples (Some ?f) (Some ?d1) (Some ?xs) (int (length ?xs)) = Some (Some ?d2)"
    using a2 by simp
  obtain b3 where a3: "delay_line_append_samples (Some ?f) (Some ?d2) (Some ?xs) (int 3000)
                = Some (Some (?d2\<lparr>buffer := b3,
                     index := (if index ?d2 + 3000 < size_dl ?d2 then index ?d2 + 3000
                               else index ?d2 + 3000 - 2 * 4095)\<rparr>))"
      and l3: "length b3 = size_dl ?d2"
      and v3: "\<forall>p<size_dl ?d2. b3 ! p = appended (size_dl ?d2) 4095 (index ?d2) ?xs 3000 (buffer ?d2) p"
    using delay_line_append_samples_closed [OF _ _ f, of ?d2 3000 ?xs] l2 by auto
  let ?d3 = "\<lparr>buffer = b3, size_dl = 65532, index = 58151\<rparr>"
  have a3': "delay_line_append_samples (Some ?f) (Some ?d2) (Some ?xs) (int (length ?xs)) = Some (Some ?d3)"
    using a3 by simp
  have c: "append_calls ?d0 (map (Pair ?f) [?xs, ?xs, ?xs]) = Some ?d3"
    by (simp only: list.map append_calls.simps a1' a2' a3' option.case)
  have "b3 ! 51056 = b2 ! 51056"
    using v3 by (simp add: appended_def)
  also have "\<dots> = b1 ! 51056"
    using v2 by (simp add: appended_def)
  also have "\<dots> = 0"
    using v1 by (simp add: appended_def)
  finally have w: "apply_window ?f ?d3 3000 ! 0 = 0"
    using l3 by (simp add: apply_window_def)
  have "reference_window (4095 + 3000) (concat [?xs, ?xs, ?xs]) ! 0
          = past (concat [?xs, ?xs, ?xs]) (4095 + 3000 - 1 - 0)"
    by (rule reference_window_nth) simp
  then have r: "reference_window (4095 + 3000) (concat [?xs, ?xs, ?xs]) ! 0 = 1"
    by (simp add: past_def nth_append)
  show ?thesis
    unfolding c using w r by simp
qed

subsection \<open>A block through a channel\<close>







subsection \<open>Impulse response\<close>









subsection \<open>The first block after a swap\<close>









text \<open>The same on a small scale: size 24, seven one-sample blocks with order 2, then the block
  \<open>[8]\<close> with order 6 and \<open>coeff[0] = 1\<close> yields 6, where the sample six back is 2.\<close>

lemma filter_swap_small_example:
  "append_calls \<lparr>buffer = replicate 24 0, size_dl = 24, index = 23\<rparr>
     (map (Pair \<lparr>rate = 44100, coeffs = 0, order = 2\<rparr>) [[1], [2], [3], [4], [5], [6], [7]])
     = Some \<lparr>buffer = [0, 0, 0, 0, 0, 0, 0, 0, 0, 0, 0, 0, 0, 0, 0, 0, 6, 7, 4, 5, 6, 7, 4, 5],
             size_dl = 24, index = 22\<rparr> \<and>
   process_channel False \<lparr>arrays = [0 \<mapsto> [0, 0], 1 \<mapsto> [1, 0, 0, 0, 0, 0]], brk = 2, alloc_ok = []\<rparr>
     \<lparr>delay_line = Some \<lparr>buffer = [0, 0, 0, 0, 0, 0, 0, 0, 0, 0, 0, 0, 0, 0, 0, 0, 6, 7, 4, 5, 6, 7, 4, 5],
                          size_dl = 24, index = 22\<rparr>,
       current = Some \<lparr>rate = 48000, coeffs = 1, order = 6\<rparr>\<rparr> (Some [8]) (Some [0]) 1
     = Some (\<lparr>delay_line = Some \<lparr>buffer = [0, 0, 0, 0, 0, 0, 0, 0, 0, 0, 8, 0, 0, 0, 0, 0, 6, 7, 4, 5, 6, 7, 8, 5],
                                   size_dl = 24, index = 23\<rparr>,
              current = Some \<lparr>rate = 48000, coeffs = 1, order = 6\<rparr>\<rparr>, Some [6]) \<and>
   conv_at 6 [1, 0, 0, 0, 0, 0] (reference_window (6 + 1) [1, 2, 3, 4, 5, 6, 7, 8]) 0 = 2"
  by code_simp

end
